theory Spec2Isabelle
  imports Complex_Main "HOL-Library.Multiset"
begin

section \<open>Data model (src/lib/utils.ts, type declarations)\<close>

text \<open>
  JavaScript numbers that count keys, bytes, seconds or milliseconds are modelled as
  integers: \<open>int\<close> where the store can report a negative value (PTTL answers -1 and -2),
  \<open>nat\<close> for \<open>scanCount\<close> and \<open>sizeTopN\<close> and for the counters the code only ever
  increments. The sample limit reaches the scanner as the request carries it: the route
  replaces a missing or zero value by its default and checks nothing else, so
  \<open>sampleLimit\<close> is any finite number, negative and fractional ones included, and is a
  rational here. Strings are byte lists. An optional field (\<open>idleSec?\<close>, \<open>estBytes?\<close>) and
  the nullable \<open>ttlMs\<close> are options.

  A \<open>Record<string, \<dots>>\<close> and a \<open>Map\<close> are association lists in insertion order, which
  is the order JavaScript enumerates them in. This is exact for the keys the program
  uses: no bucket label and no type name of the store is an integer-like string or the
  name of a property that every object inherits.
\<close>

record ScanConfig =
  dbs :: "nat list"
  sampleLimit :: rat
  scanCount :: nat
  ttlBuckets :: "int list"
  idleBuckets :: "int list"
  sizeTopN :: nat

record KeyMeta =
  key :: string
  ktype :: string
  ttlMs :: "int option"
  idleSec :: "int option"
  estBytes :: "int option"
  db :: "nat option"

record TypeStats =
  ts_count :: nat
  ts_estBytes :: int

record PrefixAgg =
  prefix :: string
  count :: nat
  pa_estBytes :: int
  ttlHist :: "(string \<times> nat) list"
  idleHist :: "(string \<times> nat) list"
  byType :: "(string \<times> TypeStats) list"

record AggregationResult =
  prefixes :: "PrefixAgg list"
  topN :: "(string \<times> KeyMeta list) list"

subsection \<open>Insertion-ordered dictionaries\<close>

text \<open>\<open>m[k] = v\<close> and \<open>Map.set\<close>: an existing key keeps its place, a new one goes last.\<close>

fun dset :: "'k \<Rightarrow> 'v \<Rightarrow> ('k \<times> 'v) list \<Rightarrow> ('k \<times> 'v) list" where
  "dset k v [] = [(k, v)]"
| "dset k v ((k', v') # m) = (if k' = k then (k, v) # m else (k', v') # dset k v m)"

text \<open>\<open>m[k]\<close> and \<open>Map.get\<close>: \<open>None\<close> is JavaScript's \<open>undefined\<close>.\<close>

fun dget :: "('k \<times> 'v) list \<Rightarrow> 'k \<Rightarrow> 'v option" where
  "dget [] k = None"
| "dget ((k', v') # m) k = (if k' = k then Some v' else dget m k)"

section \<open>Bucket labels (src/lib/utils.ts)\<close>

text \<open>Decimal rendering of a number inside a template literal.\<close>

function show_nat :: "nat \<Rightarrow> string" where
  "show_nat n =
     (if n < 10 then [''0123456789'' ! n]
      else show_nat (n div 10) @ [''0123456789'' ! (n mod 10)])"
  by pat_completeness auto
termination
  by (relation "measure id") auto

declare show_nat.simps [simp del]

definition show_int :: "int \<Rightarrow> string" where
  "show_int i = (if i < 0 then ''-'' @ show_nat (nat (- i)) else show_nat (nat i))"

text \<open>
  \<open>Math.round (s / d)\<close> for an integer \<open>s\<close> and a positive integer \<open>d\<close>: the nearest
  integer, a half rounded up.
\<close>

definition round_div :: "int \<Rightarrow> int \<Rightarrow> int" where
  "round_div s d = (2 * s + d) div (2 * d)"

definition formatTime :: "int \<Rightarrow> string" where
  "formatTime seconds =
     (if seconds < 60 then show_int seconds @ ''s''
      else if seconds < 3600 then show_int (round_div seconds 60) @ ''m''
      else if seconds < 86400 then show_int (round_div seconds 3600) @ ''h''
      else show_int (round_div seconds 86400) @ ''d'')"

text \<open>
  The loop \<open>for (i = 0; i < buckets.length - 1; i++)\<close> over adjacent boundaries. When no
  interval matches, the label is built from the last boundary; on an empty bucket array
  \<open>buckets[-1]\<close> is \<open>undefined\<close> and \<open>formatTime\<close> renders it as \<open>NaNd\<close>.
\<close>

fun bucketLoop :: "int \<Rightarrow> int list \<Rightarrow> string" where
  "bucketLoop v [] = ''>NaNd''"
| "bucketLoop v [b] = ''>'' @ formatTime b"
| "bucketLoop v (b # b' # bs) =
     (if v \<ge> b \<and> v < b' then formatTime b @ ''-'' @ formatTime b'
      else bucketLoop v (b' # bs))"

definition getTTLBucketLabel :: "int option \<Rightarrow> int list \<Rightarrow> string" where
  "getTTLBucketLabel ttl buckets =
     (case ttl of
        None \<Rightarrow> ''persistent''
      | Some ms \<Rightarrow>
          if ms = 0 then ''0-60s''
          else bucketLoop (ms div 1000) buckets)"

definition getIdleBucketLabel :: "int \<Rightarrow> int list \<Rightarrow> string" where
  "getIdleBucketLabel idle buckets =
     (if idle = 0 then ''0-1m'' else bucketLoop idle buckets)"

section \<open>Prefix aggregation (src/lib/utils.ts)\<close>

text \<open>\<open>String.prototype.split\<close> with a string separator, and \<open>Array.prototype.join\<close>.\<close>

fun splitLoop :: "string \<Rightarrow> string \<Rightarrow> string \<Rightarrow> string list" where
  "splitLoop d acc [] = [acc]"
| "splitLoop d acc (c # cs) =
     (if d \<noteq> [] \<and> take (length d) (c # cs) = d
      then acc # splitLoop d [] (drop (length d) (c # cs))
      else splitLoop d (acc @ [c]) cs)"

definition split :: "string \<Rightarrow> string \<Rightarrow> string list" where
  "split s d = (if d = [] then map (\<lambda>c. [c]) s else splitLoop d [] s)"

fun join :: "string list \<Rightarrow> string \<Rightarrow> string" where
  "join [] d = []"
| "join [x] d = x"
| "join (x # y # xs) d = x @ d @ join (y # xs) d"

definition extractPrefixes :: "string \<Rightarrow> string \<Rightarrow> nat \<Rightarrow> string list" where
  "extractPrefixes k delimiter maxLevels =
     (let parts = split k delimiter
      in map (\<lambda>i. join (take i parts) delimiter) [1 ..< Suc (min (length parts) maxLevels)])"

definition createEmptyPrefixAgg :: "string \<Rightarrow> PrefixAgg" where
  "createEmptyPrefixAgg p =
     \<lparr>prefix = p, count = 0, pa_estBytes = 0, ttlHist = [], idleHist = [], byType = []\<rparr>"

text \<open>\<open>if (key.estBytes)\<close>: the estimate is present and not zero.\<close>

definition truthy :: "int option \<Rightarrow> bool" where
  "truthy e = (case e of None \<Rightarrow> False | Some v \<Rightarrow> v \<noteq> 0)"

text \<open>\<open>x || 0\<close>.\<close>

definition orZero :: "'a::zero option \<Rightarrow> 'a" where
  "orZero e = (case e of None \<Rightarrow> 0 | Some v \<Rightarrow> v)"

text \<open>\<open>hist[label] = (hist[label] || 0) + n\<close>.\<close>

definition histAdd :: "string \<Rightarrow> nat \<Rightarrow> (string \<times> nat) list \<Rightarrow> (string \<times> nat) list" where
  "histAdd label n hist = dset label (orZero (dget hist label) + n) hist"

definition emptyTypeStats :: TypeStats where
  "emptyTypeStats = \<lparr>ts_count = 0, ts_estBytes = 0\<rparr>"

definition updatePrefixAgg :: "PrefixAgg \<Rightarrow> KeyMeta \<Rightarrow> ScanConfig \<Rightarrow> PrefixAgg" where
  "updatePrefixAgg agg k config =
     (let agg1 = agg\<lparr>count := count agg + 1\<rparr>;
          agg2 = (if truthy (estBytes k)
                  then agg1\<lparr>pa_estBytes := pa_estBytes agg1 + the (estBytes k)\<rparr> else agg1);
          ttlLabel = getTTLBucketLabel (ttlMs k) (ttlBuckets config);
          agg3 = agg2\<lparr>ttlHist := histAdd ttlLabel 1 (ttlHist agg2)\<rparr>;
          agg4 = (case idleSec k of
                    None \<Rightarrow> agg3
                  | Some idle \<Rightarrow>
                      agg3\<lparr>idleHist :=
                        histAdd (getIdleBucketLabel idle (idleBuckets config)) 1 (idleHist agg3)\<rparr>);
          st0 = (case dget (byType agg4) (ktype k) of
                   None \<Rightarrow> emptyTypeStats | Some st \<Rightarrow> st);
          st1 = st0\<lparr>ts_count := ts_count st0 + 1\<rparr>;
          st2 = (if truthy (estBytes k)
                 then st1\<lparr>ts_estBytes := ts_estBytes st1 + the (estBytes k)\<rparr> else st1)
      in agg4\<lparr>byType := dset (ktype k) st2 (byType agg4)\<rparr>)"

text \<open>
  The insertion point: the first index whose entry has a strictly smaller estimate, the
  length of the list when there is none.
\<close>

fun insertIndex :: "KeyMeta list \<Rightarrow> KeyMeta \<Rightarrow> nat" where
  "insertIndex [] k = 0"
| "insertIndex (x # xs) k =
     (if orZero (estBytes x) < orZero (estBytes k) then 0 else Suc (insertIndex xs k))"

definition insertTopN :: "KeyMeta list \<Rightarrow> KeyMeta \<Rightarrow> nat \<Rightarrow> KeyMeta list" where
  "insertTopN list k maxSize =
     (let i = insertIndex list k
      in if i < maxSize
         then (let spliced = take i list @ k # drop i list
               in if length spliced > maxSize then take maxSize spliced else spliced)
         else list)"

text \<open>The inner loop of \<open>aggregateKeys\<close> over the prefixes of one key.\<close>

fun aggPrefixes ::
  "(string \<times> PrefixAgg) list \<Rightarrow> KeyMeta \<Rightarrow> ScanConfig \<Rightarrow> string list \<Rightarrow> (string \<times> PrefixAgg) list"
where
  "aggPrefixes pm k config [] = pm"
| "aggPrefixes pm k config (p # ps) =
     (let pm1 = (if dget pm p = None then dset p (createEmptyPrefixAgg p) pm else pm);
          pm2 = dset p (updatePrefixAgg (the (dget pm1 p)) k config) pm1
      in aggPrefixes pm2 k config ps)"

text \<open>One iteration of the outer loop: the prefix tree, then the top-N list of the key's type.\<close>

definition aggTopN ::
  "(string \<times> KeyMeta list) list \<Rightarrow> KeyMeta \<Rightarrow> ScanConfig \<Rightarrow> (string \<times> KeyMeta list) list"
where
  "aggTopN tm k config =
     (let tm1 = (if dget tm (ktype k) = None then dset (ktype k) [] tm else tm);
          topNList = the (dget tm1 (ktype k))
      in if truthy (estBytes k)
         then dset (ktype k) (insertTopN topNList k (sizeTopN config)) tm1
         else tm1)"

fun aggLoop ::
  "(string \<times> PrefixAgg) list \<times> (string \<times> KeyMeta list) list \<Rightarrow> ScanConfig \<Rightarrow> string
     \<Rightarrow> KeyMeta list \<Rightarrow> (string \<times> PrefixAgg) list \<times> (string \<times> KeyMeta list) list"
where
  "aggLoop (pm, tm) config delimiter [] = (pm, tm)"
| "aggLoop (pm, tm) config delimiter (k # ks) =
     aggLoop (aggPrefixes pm k config (extractPrefixes (key k) delimiter 3), aggTopN tm k config)
       config delimiter ks"

text \<open>
  \<open>Array.prototype.sort\<close> is stable; with the comparator \<open>b.estBytes - a.estBytes\<close> it
  orders by descending \<open>estBytes\<close> and keeps insertion order among equal values.
\<close>

definition sortPrefixes :: "PrefixAgg list \<Rightarrow> PrefixAgg list" where
  "sortPrefixes ps = sort_key (\<lambda>a. - pa_estBytes a) ps"

definition aggregateKeys :: "KeyMeta list \<Rightarrow> ScanConfig \<Rightarrow> string \<Rightarrow> AggregationResult" where
  "aggregateKeys ks config delimiter =
     (case aggLoop ([], []) config delimiter ks of
        (pm, tm) \<Rightarrow> \<lparr>prefixes = sortPrefixes (map snd pm), topN = tm\<rparr>)"

section \<open>Merge layer (src/lib/utils.ts)\<close>

text \<open>
  \<open>mergeAggregations\<close> works on the objects it is handed. A prefix it sees for the first
  time is copied with \<open>{ ...prefix }\<close>: the copy has a \<open>count\<close> and an \<open>estBytes\<close> of its
  own, while its \<open>ttlHist\<close>, \<open>idleHist\<close> and \<open>byType\<close> are the very objects of the input. A
  later prefix of the same name is added into the copy, which writes into those objects.
  So the merge is modelled on a heap that it passes along: one cell per histogram object
  and one per by-type record, and a prefix aggregate that refers to its three objects by
  address. A by-type record owns the per-type objects it holds (\<open>updatePrefixAgg\<close> and the
  merge create them in place and nothing stores one anywhere else), so a cell holds them
  by value. The top-N arrays are copied (\<open>[...keys]\<close>) before anything is inserted, and
  key metadata is never written to: the top-N lists are values.

  \<open>aggregateKeys\<close> above builds every object it returns itself, so its result is given
  as a value; \<open>readResult\<close> below reads such a value from the heap.
\<close>

record Heap =
  histCell :: "nat \<Rightarrow> (string \<times> nat) list"
  typeCell :: "nat \<Rightarrow> (string \<times> TypeStats) list"

record PrefixRef =
  r_prefix :: string
  r_count :: nat
  r_estBytes :: int
  r_ttlHist :: nat
  r_idleHist :: nat
  r_byType :: nat

record ResultRef =
  r_prefixes :: "PrefixRef list"
  r_topN :: "(string \<times> KeyMeta list) list"

text \<open>
  The loops over \<open>Object.entries (prefix.ttlHist)\<close> and \<open>Object.entries (prefix.byType)\<close>,
  on the content of the object they write to: the entries are listed before the loop
  starts.
\<close>

fun mergeHist :: "(string \<times> nat) list \<Rightarrow> (string \<times> nat) list \<Rightarrow> (string \<times> nat) list" where
  "mergeHist existing [] = existing"
| "mergeHist existing ((label, n) # h) = mergeHist (histAdd label n existing) h"

fun mergeByType ::
  "(string \<times> TypeStats) list \<Rightarrow> (string \<times> TypeStats) list \<Rightarrow> (string \<times> TypeStats) list"
where
  "mergeByType existing [] = existing"
| "mergeByType existing ((t, st) # bt) =
     (let st0 = (case dget existing t of None \<Rightarrow> emptyTypeStats | Some s \<Rightarrow> s)
      in mergeByType
           (dset t (st0\<lparr>ts_count := ts_count st0 + ts_count st,
                       ts_estBytes := ts_estBytes st0 + ts_estBytes st\<rparr>) existing) bt)"

text \<open>
  The same loops on the heap: the object at address \<open>e\<close> receives the entries that the
  object at address \<open>p\<close> holds when the loop starts.
\<close>

definition addHist :: "Heap \<Rightarrow> nat \<Rightarrow> nat \<Rightarrow> Heap" where
  "addHist h e p = h\<lparr>histCell := (histCell h)(e := mergeHist (histCell h e) (histCell h p))\<rparr>"

definition addByType :: "Heap \<Rightarrow> nat \<Rightarrow> nat \<Rightarrow> Heap" where
  "addByType h e p = h\<lparr>typeCell := (typeCell h)(e := mergeByType (typeCell h e) (typeCell h p))\<rparr>"

text \<open>
  The \<open>else\<close> branch: \<open>existing\<close> is the copy held by the map, \<open>p\<close> the prefix of the
  input. The two numbers of the copy are replaced, the three objects it refers to are
  written to, in the order of the source.
\<close>

definition mergePrefix :: "Heap \<Rightarrow> PrefixRef \<Rightarrow> PrefixRef \<Rightarrow> Heap \<times> PrefixRef" where
  "mergePrefix h existing p =
     (let h1 = addHist h (r_ttlHist existing) (r_ttlHist p);
          h2 = addHist h1 (r_idleHist existing) (r_idleHist p);
          h3 = addByType h2 (r_byType existing) (r_byType p)
      in (h3, existing\<lparr>r_count := r_count existing + r_count p,
                        r_estBytes := r_estBytes existing + r_estBytes p\<rparr>))"

text \<open>
  The loop over \<open>result.prefixes\<close>. The shallow copy of a new prefix is the prefix with the
  same three addresses.
\<close>

fun mergePrefixes ::
  "Heap \<Rightarrow> (string \<times> PrefixRef) list \<Rightarrow> PrefixRef list \<Rightarrow> Heap \<times> (string \<times> PrefixRef) list"
where
  "mergePrefixes h mp [] = (h, mp)"
| "mergePrefixes h mp (p # ps) =
     (case dget mp (r_prefix p) of
        None \<Rightarrow> mergePrefixes h (dset (r_prefix p) p mp) ps
      | Some existing \<Rightarrow>
          (case mergePrefix h existing p of
             (h', merged) \<Rightarrow> mergePrefixes h' (dset (r_prefix p) merged mp) ps))"

text \<open>\<open>for (const key of keys) insertTopN(existing, key, 20)\<close>.\<close>

fun insertAll :: "KeyMeta list \<Rightarrow> KeyMeta list \<Rightarrow> nat \<Rightarrow> KeyMeta list" where
  "insertAll existing [] maxSize = existing"
| "insertAll existing (k # ks) maxSize = insertAll (insertTopN existing k maxSize) ks maxSize"

fun mergeTopN ::
  "(string \<times> KeyMeta list) list \<Rightarrow> (string \<times> KeyMeta list) list \<Rightarrow> (string \<times> KeyMeta list) list"
where
  "mergeTopN mt [] = mt"
| "mergeTopN mt ((t, ks) # rest) =
     mergeTopN
       (case dget mt t of
          None \<Rightarrow> dset t ks mt
        | Some existing \<Rightarrow> dset t (insertAll existing ks 20) mt) rest"

fun mergeLoop ::
  "Heap \<times> (string \<times> PrefixRef) list \<times> (string \<times> KeyMeta list) list \<Rightarrow> ResultRef list
     \<Rightarrow> Heap \<times> (string \<times> PrefixRef) list \<times> (string \<times> KeyMeta list) list"
where
  "mergeLoop (h, mp, mt) [] = (h, mp, mt)"
| "mergeLoop (h, mp, mt) (r # rs) =
     (case mergePrefixes h mp (r_prefixes r) of
        (h', mp') \<Rightarrow> mergeLoop (h', mp', mergeTopN mt (r_topN r)) rs)"

definition sortRefs :: "PrefixRef list \<Rightarrow> PrefixRef list" where
  "sortRefs ps = sort_key (\<lambda>a. - r_estBytes a) ps"

text \<open>The heap after the call, and the object returned.\<close>

definition mergeAggregations :: "Heap \<Rightarrow> ResultRef list \<Rightarrow> Heap \<times> ResultRef" where
  "mergeAggregations h results =
     (case mergeLoop (h, [], []) results of
        (h', mp, mt) \<Rightarrow> (h', \<lparr>r_prefixes = sortRefs (map snd mp), r_topN = mt\<rparr>))"

text \<open>The value of a prefix aggregate and of a result in a heap.\<close>

definition readPrefix :: "Heap \<Rightarrow> PrefixRef \<Rightarrow> PrefixAgg" where
  "readPrefix h p =
     \<lparr>prefix = r_prefix p, count = r_count p, pa_estBytes = r_estBytes p,
      ttlHist = histCell h (r_ttlHist p), idleHist = histCell h (r_idleHist p),
      byType = typeCell h (r_byType p)\<rparr>"

definition readResult :: "Heap \<Rightarrow> ResultRef \<Rightarrow> AggregationResult" where
  "readResult h r = \<lparr>prefixes = map (readPrefix h) (r_prefixes r), topN = r_topN r\<rparr>"

section \<open>The store as seen by the scanner\<close>

text \<open>
  A connection (\<open>Redis\<close> client or cluster node) is the database it has selected together
  with the store's answer to every command the scanner issues; during one scan the store
  answers a command the same way each time. A command that rejects or throws answers
  \<open>Inl\<close> with the error message; the entry \<open>[err, value]\<close> of a pipeline result is modelled
  the same way. Cardinalities are natural numbers; the other replies are the integers or
  strings the command returns.
\<close>

record Redis =
  selected :: nat
  host :: string
  port :: nat
  infoReply :: "string + string"
  selectReply :: "nat \<Rightarrow> string option"
  scanReply :: "nat \<Rightarrow> string \<Rightarrow> string + (string \<times> string list)"
  execReply :: "nat \<Rightarrow> string list \<Rightarrow> string + bool"
  typeReply :: "nat \<Rightarrow> string \<Rightarrow> string + string"
  pttlReply :: "nat \<Rightarrow> string \<Rightarrow> string + int"
  idleReply :: "nat \<Rightarrow> string \<Rightarrow> string + int"
  memoryReply :: "nat \<Rightarrow> string \<Rightarrow> string + int option"
  getReply :: "nat \<Rightarrow> string \<Rightarrow> string + string option"
  hlenReply :: "nat \<Rightarrow> string \<Rightarrow> string + nat"
  hscanReply :: "nat \<Rightarrow> string \<Rightarrow> nat \<Rightarrow> string + string list"
  llenReply :: "nat \<Rightarrow> string \<Rightarrow> string + nat"
  lrangeReply :: "nat \<Rightarrow> string \<Rightarrow> nat \<Rightarrow> string + string list"
  scardReply :: "nat \<Rightarrow> string \<Rightarrow> string + nat"
  sscanReply :: "nat \<Rightarrow> string \<Rightarrow> nat \<Rightarrow> string + string list"
  zcardReply :: "nat \<Rightarrow> string \<Rightarrow> string + nat"
  zrevrangeReply :: "nat \<Rightarrow> string \<Rightarrow> nat \<Rightarrow> string + string list"
  xinfoReply :: "nat \<Rightarrow> string \<Rightarrow> string + nat"

section \<open>Size estimation (sizeEstimate.ts)\<close>

definition baseOverhead :: int where
  "baseOverhead = 50"

text \<open>\<open>Buffer.byteLength (s, 'utf8')\<close> of a byte string.\<close>

definition byteLength :: "string \<Rightarrow> int" where
  "byteLength s = int (length s)"

text \<open>
  \<open>Math.floor (totalSize / samples * n)\<close>, computed on exact rationals; the source
  computes it on doubles.
\<close>

definition extrapolate :: "int \<Rightarrow> nat \<Rightarrow> nat \<Rightarrow> int" where
  "extrapolate totalSize samples n =
     \<lfloor>((of_int totalSize :: rat) / of_nat samples) * of_nat n\<rfloor>"

text \<open>
  The loops \<open>for (i = 0; i < entries.length; i += 2)\<close> over a flat list of pairs. An odd
  list leaves the last value \<open>undefined\<close>, on which \<open>Buffer.byteLength\<close> and \<open>toString\<close>
  throw: the result is \<open>None\<close>.
\<close>

fun pairsSize :: "string list \<Rightarrow> int option" where
  "pairsSize [] = Some 0"
| "pairsSize [x] = None"
| "pairsSize (x # y # xs) =
     (case pairsSize xs of None \<Rightarrow> None | Some n \<Rightarrow> Some (byteLength x + byteLength y + n))"

definition elementsSize :: "string list \<Rightarrow> int" where
  "elementsSize xs = sum_list (map byteLength xs)"

definition estimateStringSize :: "Redis \<Rightarrow> string \<Rightarrow> int" where
  "estimateStringSize client k =
     (case getReply client (selected client) k of
        Inl e \<Rightarrow> 0
      | Inr None \<Rightarrow> 0
      | Inr (Some v) \<Rightarrow> if v \<noteq> [] then byteLength v else 0)"

definition estimateHashSize :: "Redis \<Rightarrow> string \<Rightarrow> int" where
  "estimateHashSize client k =
     (case hlenReply client (selected client) k of
        Inl e \<Rightarrow> 0
      | Inr hlen \<Rightarrow>
          if hlen = 0 then 0
          else (let sampleSize = min 10 hlen
                in case hscanReply client (selected client) k sampleSize of
                     Inl e \<Rightarrow> 0
                   | Inr fieldEntries \<Rightarrow>
                       (case pairsSize fieldEntries of
                          None \<Rightarrow> 0
                        | Some totalSize \<Rightarrow> extrapolate totalSize (sampleSize * 2) hlen)))"

definition estimateListSize :: "Redis \<Rightarrow> string \<Rightarrow> int" where
  "estimateListSize client k =
     (case llenReply client (selected client) k of
        Inl e \<Rightarrow> 0
      | Inr llen \<Rightarrow>
          if llen = 0 then 0
          else (let sampleSize = min 10 llen
                in case lrangeReply client (selected client) k (sampleSize - 1) of
                     Inl e \<Rightarrow> 0
                   | Inr elements \<Rightarrow> extrapolate (elementsSize elements) sampleSize llen))"

definition estimateSetSize :: "Redis \<Rightarrow> string \<Rightarrow> int" where
  "estimateSetSize client k =
     (case scardReply client (selected client) k of
        Inl e \<Rightarrow> 0
      | Inr scard \<Rightarrow>
          if scard = 0 then 0
          else (let sampleSize = min 20 scard
                in case sscanReply client (selected client) k sampleSize of
                     Inl e \<Rightarrow> 0
                   | Inr sampleElements \<Rightarrow>
                       extrapolate (elementsSize sampleElements) sampleSize scard))"

definition estimateZSetSize :: "Redis \<Rightarrow> string \<Rightarrow> int" where
  "estimateZSetSize client k =
     (case zcardReply client (selected client) k of
        Inl e \<Rightarrow> 0
      | Inr zcard \<Rightarrow>
          if zcard = 0 then 0
          else (let sampleSize = min 10 zcard
                in case zrevrangeReply client (selected client) k (sampleSize - 1) of
                     Inl e \<Rightarrow> 0
                   | Inr elements \<Rightarrow>
                       (case pairsSize elements of
                          None \<Rightarrow> 0
                        | Some totalSize \<Rightarrow> extrapolate totalSize sampleSize zcard)))"

definition estimateStreamSize :: "Redis \<Rightarrow> string \<Rightarrow> int" where
  "estimateStreamSize client k =
     (case xinfoReply client (selected client) k of
        Inl e \<Rightarrow> 0
      | Inr len \<Rightarrow> if len = 0 then 0 else int len * 100)"

definition estimateKeySizeHeuristic :: "Redis \<Rightarrow> string \<Rightarrow> string \<Rightarrow> int" where
  "estimateKeySizeHeuristic client k t =
     (if t = ''string'' then estimateStringSize client k + baseOverhead
      else if t = ''hash'' then estimateHashSize client k + baseOverhead
      else if t = ''list'' then estimateListSize client k + baseOverhead
      else if t = ''set'' then estimateSetSize client k + baseOverhead
      else if t = ''zset'' then estimateZSetSize client k + baseOverhead
      else if t = ''stream'' then estimateStreamSize client k + baseOverhead
      else baseOverhead)"

text \<open>
  \<open>estimateKeySize\<close> is an \<open>async\<close> function: it can reject, so its result is a sum. Every
  command it issues sits in a \<open>try\<close> block, so no branch of the model answers \<open>Inl\<close>.
\<close>

definition estimateKeySize :: "Redis \<Rightarrow> string \<Rightarrow> string \<Rightarrow> string + int" where
  "estimateKeySize client k t =
     (case memoryReply client (selected client) k of
        Inr (Some memoryUsage) \<Rightarrow>
          if memoryUsage \<noteq> 0 \<and> memoryUsage > 0 then Inr memoryUsage
          else Inr (estimateKeySizeHeuristic client k t)
      | Inr None \<Rightarrow> Inr (estimateKeySizeHeuristic client k t)
      | Inl e \<Rightarrow> Inr (estimateKeySizeHeuristic client k t))"

section \<open>Scan engine (src/lib/scan/scanEngine.ts)\<close>

record SampleStats =
  durationMs :: nat
  sampled :: rat
  approxTotalKeys :: nat
  coverage :: rat
  memoryUsageCalls :: nat
  errors :: "string list"

record ScanResult =
  keys :: "KeyMeta list"
  stats :: SampleStats

subsection \<open>The key count of \<open>INFO keyspace\<close>\<close>

definition startsWith :: "string \<Rightarrow> string \<Rightarrow> bool" where
  "startsWith s p = (take (length p) s = p)"

definition isDigit :: "char \<Rightarrow> bool" where
  "isDigit c = (c \<in> set ''0123456789'')"

definition digitValue :: "char \<Rightarrow> nat" where
  "digitValue c = length (takeWhile (\<lambda>d. d \<noteq> c) ''0123456789'')"

definition parseInt :: "string \<Rightarrow> nat" where
  "parseInt ds = foldl (\<lambda>n c. 10 * n + digitValue c) 0 ds"

text \<open>\<open>line.match(/keys=(\\d+)/)\<close>: the digits captured by the leftmost match.\<close>

fun matchKeys :: "string \<Rightarrow> string option" where
  "matchKeys [] = None"
| "matchKeys (c # cs) =
     (if startsWith (c # cs) ''keys='' \<and> takeWhile isDigit (drop 5 (c # cs)) \<noteq> []
      then Some (takeWhile isDigit (drop 5 (c # cs)))
      else matchKeys cs)"

text \<open>The loop over the lines: \<open>Some n\<close> when it breaks on a \<open>db0:\<close> line that matches.\<close>

fun keyspaceLoop :: "string list \<Rightarrow> nat option" where
  "keyspaceLoop [] = None"
| "keyspaceLoop (line # ls) =
     (if startsWith line ''db0:''
      then (case matchKeys line of Some ds \<Rightarrow> Some (parseInt ds) | None \<Rightarrow> keyspaceLoop ls)
      else keyspaceLoop ls)"

definition keyspaceKeys :: "string \<Rightarrow> nat option" where
  "keyspaceKeys info = keyspaceLoop (split info [CHR 0x0D, CHR 0x0A])"

subsection \<open>Metadata of one batch\<close>

text \<open>
  The body of the loop over the batch at index \<open>i\<close>: \<open>None\<close> when the key is skipped
  (\<open>continue\<close>), else the metadata and the number of size estimations made (0 or 1).
\<close>

definition keyMetadata :: "Redis \<Rightarrow> nat \<Rightarrow> nat \<Rightarrow> string \<Rightarrow> (KeyMeta \<times> nat) option" where
  "keyMetadata client d i k =
     (case typeReply client (selected client) k of
        Inl e \<Rightarrow> None
      | Inr t \<Rightarrow>
          (let ttl = (case pttlReply client (selected client) k of
                        Inl e \<Rightarrow> None | Inr v \<Rightarrow> Some v);
               idle = (case idleReply client (selected client) k of
                         Inl e \<Rightarrow> None | Inr v \<Rightarrow> Some v);
               est = (if i mod 10 = 0
                      then (case estimateKeySize client k t of
                              Inr v \<Rightarrow> (Some v, 1)
                            | Inl e \<Rightarrow> (None, 0))
                      else (None, 0))
           in Some (\<lparr>key = k, ktype = t,
                      ttlMs = (if ttl = Some (- 1) then None else ttl),
                      idleSec = idle, estBytes = fst est, db = Some d\<rparr>, snd est)))"

fun metadataLoop :: "Redis \<Rightarrow> nat \<Rightarrow> nat \<Rightarrow> string list \<Rightarrow> KeyMeta list \<times> nat" where
  "metadataLoop client d i [] = ([], 0)"
| "metadataLoop client d i (k # ks) =
     (case keyMetadata client d i k of
        None \<Rightarrow> metadataLoop client d (Suc i) ks
      | Some (m, n) \<Rightarrow>
          (case metadataLoop client d (Suc i) ks of (ms, calls) \<Rightarrow> (m # ms, n + calls)))"

text \<open>
  \<open>pipeline.exec ()\<close> rejects (\<open>Inl\<close>), resolves to \<open>null\<close> (\<open>Inr False\<close>) or to the array
  of replies.
\<close>

definition collectKeyMetadata ::
  "Redis \<Rightarrow> string list \<Rightarrow> nat \<Rightarrow> ScanConfig \<Rightarrow> string + (KeyMeta list \<times> nat)"
where
  "collectKeyMetadata client ks d config =
     (case execReply client (selected client) ks of
        Inl e \<Rightarrow> Inl e
      | Inr False \<Rightarrow> Inr ([], 0)
      | Inr True \<Rightarrow> Inr (metadataLoop client d 0 ks))"

subsection \<open>The cursor loop\<close>

text \<open>
  The \<open>do \<dots> while (cursor !== '0')\<close> loop of both scanners, on the array it appends to
  and the counter of size estimations. It ends with the array, the counter and the error
  that left the enclosing \<open>try\<close> block, if any. The store decides whether the cursor ever
  comes back to \<open>'0'\<close>, so the loop carries fuel: \<open>None\<close> is a loop still running when
  the fuel is spent.
\<close>

fun scanLoop ::
  "nat \<Rightarrow> Redis \<Rightarrow> nat \<Rightarrow> ScanConfig \<Rightarrow> string \<Rightarrow> KeyMeta list \<times> nat
     \<Rightarrow> (KeyMeta list \<times> nat \<times> string option) option"
where
  "scanLoop 0 client d config cursor (ks, calls) = None"
| "scanLoop (Suc fuel) client d config cursor (ks, calls) =
     (case scanReply client (selected client) cursor of
        Inl e \<Rightarrow> Some (ks, calls, Some e)
      | Inr (newCursor, batchKeys) \<Rightarrow>
          (case (if length batchKeys > 0 then collectKeyMetadata client batchKeys d config
                 else Inr ([], 0)) of
             Inl e \<Rightarrow> Some (ks, calls, Some e)
           | Inr (batch, n) \<Rightarrow>
               if of_nat (length (ks @ batch)) \<ge> sampleLimit config
               then Some (ks @ batch, calls + n, None)
               else if newCursor \<noteq> ''0''
               then scanLoop fuel client d config newCursor (ks @ batch, calls + n)
               else Some (ks @ batch, calls + n, None)))"

subsection \<open>Standalone\<close>

definition dbError :: "nat \<Rightarrow> string \<Rightarrow> string" where
  "dbError d e = ''DB '' @ show_nat d @ '': '' @ e"

text \<open>The loop over \<open>config.dbs\<close>, on (\<open>keys\<close>, \<open>memoryUsageCalls\<close>, \<open>errors\<close>).\<close>

fun scanDbs ::
  "nat \<Rightarrow> Redis \<Rightarrow> ScanConfig \<Rightarrow> nat list \<Rightarrow> KeyMeta list \<times> nat \<times> string list
     \<Rightarrow> (KeyMeta list \<times> nat \<times> string list) option"
where
  "scanDbs fuel client config [] st = Some st"
| "scanDbs fuel client config (d # ds) (ks, calls, errs) =
     (if of_nat (length ks) \<ge> sampleLimit config then Some (ks, calls, errs)
      else (case selectReply client d of
              Some e \<Rightarrow> scanDbs fuel client config ds (ks, calls, errs @ [dbError d e])
            | None \<Rightarrow>
                (case scanLoop fuel (client\<lparr>selected := d\<rparr>) d config ''0'' (ks, calls) of
                   None \<Rightarrow> None
                 | Some (ks', calls', err) \<Rightarrow>
                     scanDbs fuel (client\<lparr>selected := d\<rparr>) config ds
                       (ks', calls',
                        case err of None \<Rightarrow> errs | Some e \<Rightarrow> errs @ [dbError d e]))))"

definition standaloneTotalKeys :: "Redis \<Rightarrow> nat" where
  "standaloneTotalKeys client =
     (case infoReply client of
        Inl e \<Rightarrow> 0
      | Inr info \<Rightarrow> (case keyspaceKeys info of None \<Rightarrow> 0 | Some n \<Rightarrow> n))"

text \<open>
  \<open>keys.slice (0, end)\<close> for any number \<open>end\<close>: the end is truncated towards zero, and a
  negative end counts from the end of the array.
\<close>

definition toInteger :: "rat \<Rightarrow> int" where
  "toInteger x = (if x < 0 then \<lceil>x\<rceil> else \<lfloor>x\<rfloor>)"

definition slice0 :: "'a list \<Rightarrow> rat \<Rightarrow> 'a list" where
  "slice0 xs e =
     (if toInteger e < 0 then take (nat (int (length xs) + toInteger e)) xs
      else take (nat (toInteger e)) xs)"

text \<open>
  The object both scanners return, from the accumulated array and counters.
  \<open>Math.min (keys.length, config.sampleLimit)\<close> is the smaller of the two numbers.
\<close>

definition scanResult :: "ScanConfig \<Rightarrow> nat \<Rightarrow> KeyMeta list \<times> nat \<times> string list \<Rightarrow> ScanResult" where
  "scanResult config totalKeys st =
     (case st of
        (ks, calls, errs) \<Rightarrow>
          \<lparr>keys = slice0 ks (sampleLimit config),
           stats =
             \<lparr>durationMs = 0,
              sampled = min (of_nat (length ks)) (sampleLimit config),
              approxTotalKeys = totalKeys,
              coverage =
                (if totalKeys > 0
                 then min (of_nat (length ks)) (sampleLimit config) / of_nat totalKeys
                 else 0),
              memoryUsageCalls = calls,
              errors = errs\<rparr>\<rparr>)"

definition scanStandalone :: "nat \<Rightarrow> Redis \<Rightarrow> ScanConfig \<Rightarrow> ScanResult option" where
  "scanStandalone fuel client config =
     map_option (scanResult config (standaloneTotalKeys client))
       (scanDbs fuel client config (dbs config) ([], 0, []))"

subsection \<open>Cluster\<close>

text \<open>
  The key counts of the master nodes are added up inside one \<open>try\<close> block: a node whose
  \<open>INFO\<close> fails ends the loop and keeps the sum so far.
\<close>

fun clusterTotalKeys :: "Redis list \<Rightarrow> nat \<Rightarrow> nat" where
  "clusterTotalKeys [] acc = acc"
| "clusterTotalKeys (node # nodes) acc =
     (case infoReply node of
        Inl e \<Rightarrow> acc
      | Inr info \<Rightarrow>
          clusterTotalKeys nodes (case keyspaceKeys info of None \<Rightarrow> acc | Some n \<Rightarrow> acc + n))"

definition nodeError :: "Redis \<Rightarrow> string \<Rightarrow> string" where
  "nodeError node e = ''Node '' @ host node @ '':'' @ show_nat (port node) @ '': '' @ e"

text \<open>
  One task per master node, each with its own array and cursor. The tasks share only
  \<open>errors\<close>; the model lists the errors in node order, and \<open>Promise.all\<close> returns the
  node results in node order whatever the interleaving.
\<close>

definition scanNode :: "nat \<Rightarrow> ScanConfig \<Rightarrow> Redis \<Rightarrow> (KeyMeta list \<times> nat \<times> string list) option" where
  "scanNode fuel config node =
     (case scanLoop fuel node 0 config ''0'' ([], 0) of
        None \<Rightarrow> None
      | Some (ks, calls, err) \<Rightarrow>
          Some (ks, calls, case err of None \<Rightarrow> [] | Some e \<Rightarrow> [nodeError node e]))"

fun combineNodes ::
  "(KeyMeta list \<times> nat \<times> string list) option list \<Rightarrow> KeyMeta list \<times> nat \<times> string list
     \<Rightarrow> (KeyMeta list \<times> nat \<times> string list) option"
where
  "combineNodes [] st = Some st"
| "combineNodes (None # rs) st = None"
| "combineNodes (Some (nodeKeys, n, es) # rs) (ks, calls, errs) =
     combineNodes rs (ks @ nodeKeys, calls + n, errs @ es)"

definition scanCluster :: "nat \<Rightarrow> Redis list \<Rightarrow> ScanConfig \<Rightarrow> ScanResult option" where
  "scanCluster fuel nodes config =
     map_option (scanResult config (clusterTotalKeys nodes 0))
       (combineNodes (map (scanNode fuel config) nodes) ([], 0, []))"

section \<open>Observations\<close>

text \<open>
  The quantities the properties below are stated with. None of them is part of the
  program: they read a result the way a caller would.
\<close>

subsection \<open>Totals of a prefix aggregate\<close>

text \<open>The sum of a histogram, of the per-type counts and of the per-type byte sums.\<close>

definition histTotal :: "(string \<times> nat) list \<Rightarrow> nat" where
  "histTotal h = sum_list (map snd h)"

definition typeTotal :: "(string \<times> TypeStats) list \<Rightarrow> nat" where
  "typeTotal bt = sum_list (map (\<lambda>e. ts_count (snd e)) bt)"

definition typeBytes :: "(string \<times> TypeStats) list \<Rightarrow> int" where
  "typeBytes bt = sum_list (map (\<lambda>e. ts_estBytes (snd e)) bt)"

definition aggInvariant :: "PrefixAgg \<Rightarrow> bool" where
  "aggInvariant a \<longleftrightarrow>
     typeTotal (byType a) = count a \<and> histTotal (ttlHist a) = count a \<and> histTotal (idleHist a) \<le> count a"

text \<open>A key whose estimate is exactly zero, with the estimate taken away.\<close>

definition zeroAsAbsent :: "KeyMeta \<Rightarrow> KeyMeta" where
  "zeroAsAbsent k = (if estBytes k = Some 0 then k\<lparr>estBytes := None\<rparr> else k)"


subsection \<open>Maps keyed by the prefix they hold, and bounded top-N maps\<close>

definition wellKeyed :: "(string \<times> PrefixAgg) list \<Rightarrow> bool" where
  "wellKeyed pm \<longleftrightarrow> distinct (map fst pm) \<and> (\<forall>e \<in> set pm. prefix (snd e) = fst e)"




subsection \<open>The keys a scan visits\<close>










subsection \<open>The merge of separate objects, on values\<close>

text \<open>
  What the specification takes a merge to be: a function of the values of the partial
  results, which adds a later prefix of the same name into the value of the first one,
  field by field. Lemma \<open>mergeAggregations_refines\<close> shows that this is the value of the
  object \<open>mergeAggregations\<close> returns whenever the partial results are separate objects.
\<close>

definition mergePrefixV :: "PrefixAgg \<Rightarrow> PrefixAgg \<Rightarrow> PrefixAgg" where
  "mergePrefixV existing p =
     existing\<lparr>count := count existing + count p,
              pa_estBytes := pa_estBytes existing + pa_estBytes p,
              ttlHist := mergeHist (ttlHist existing) (ttlHist p),
              idleHist := mergeHist (idleHist existing) (idleHist p),
              byType := mergeByType (byType existing) (byType p)\<rparr>"

fun mergePrefixesV :: "(string \<times> PrefixAgg) list \<Rightarrow> PrefixAgg list \<Rightarrow> (string \<times> PrefixAgg) list" where
  "mergePrefixesV mp [] = mp"
| "mergePrefixesV mp (p # ps) =
     mergePrefixesV
       (case dget mp (prefix p) of
          None \<Rightarrow> dset (prefix p) p mp
        | Some existing \<Rightarrow> dset (prefix p) (mergePrefixV existing p) mp) ps"

fun mergeLoopV ::
  "(string \<times> PrefixAgg) list \<times> (string \<times> KeyMeta list) list \<Rightarrow> AggregationResult list
     \<Rightarrow> (string \<times> PrefixAgg) list \<times> (string \<times> KeyMeta list) list"
where
  "mergeLoopV (mp, mt) [] = (mp, mt)"
| "mergeLoopV (mp, mt) (r # rs) = mergeLoopV (mergePrefixesV mp (prefixes r), mergeTopN mt (topN r)) rs"

definition mergeValues :: "AggregationResult list \<Rightarrow> AggregationResult" where
  "mergeValues results =
     (case mergeLoopV ([], []) results of
        (mp, mt) \<Rightarrow> \<lparr>prefixes = sortPrefixes (map snd mp), topN = mt\<rparr>)"

text \<open>
  Prefix aggregates are separate objects when no histogram object and no by-type record
  is reached twice: the addresses of all TTL and idle histograms differ from one another,
  and so do the addresses of all by-type records. Partial results are separate when all
  their prefix aggregates are.
\<close>

definition separatePrefixes :: "PrefixRef list \<Rightarrow> bool" where
  "separatePrefixes ps \<longleftrightarrow>
     distinct (map r_ttlHist ps @ map r_idleHist ps) \<and> distinct (map r_byType ps)"

definition separate :: "ResultRef list \<Rightarrow> bool" where
  "separate rs \<longleftrightarrow> separatePrefixes (concat (map r_prefixes rs))"

text \<open>
  The value of the object a call returns, read from the heap the call leaves; and the two
  groupings of three partial results, the inner call made first and the outer call on
  the heap it leaves.
\<close>

definition resultValue :: "Heap \<times> ResultRef \<Rightarrow> AggregationResult" where
  "resultValue s = readResult (fst s) (snd s)"

definition mergeLeft :: "Heap \<Rightarrow> ResultRef \<Rightarrow> ResultRef \<Rightarrow> ResultRef \<Rightarrow> Heap \<times> ResultRef" where
  "mergeLeft h a b c =
     (case mergeAggregations h [a, b] of (h', ab) \<Rightarrow> mergeAggregations h' [ab, c])"

definition mergeRight :: "Heap \<Rightarrow> ResultRef \<Rightarrow> ResultRef \<Rightarrow> ResultRef \<Rightarrow> Heap \<times> ResultRef" where
  "mergeRight h a b c =
     (case mergeAggregations h [b, c] of (h', bc) \<Rightarrow> mergeAggregations h' [a, bc])"

text \<open>Two calls one after the other, the second on the heap the first leaves.\<close>

definition mergeThen :: "Heap \<Rightarrow> ResultRef list \<Rightarrow> ResultRef list \<Rightarrow> Heap \<times> ResultRef" where
  "mergeThen h rs rs' = mergeAggregations (fst (mergeAggregations h rs)) rs'"

text \<open>
  The map of the merge read from a heap, and the reference analogue of a map that is keyed
  by the prefix it holds.
\<close>

definition readMap :: "Heap \<Rightarrow> (string \<times> PrefixRef) list \<Rightarrow> (string \<times> PrefixAgg) list" where
  "readMap h mp = map (\<lambda>e. (fst e, readPrefix h (snd e))) mp"

definition wellKeyedR :: "(string \<times> PrefixRef) list \<Rightarrow> bool" where
  "wellKeyedR mp \<longleftrightarrow> distinct (map fst mp) \<and> (\<forall>e \<in> set mp. r_prefix (snd e) = fst e)"

subsection \<open>Per-prefix totals of a result\<close>

text \<open>
  What a result says about prefix \<open>p\<close>, independently of the order of its lists: the sum
  of a field over the entries named \<open>p\<close>, the count a histogram gives a label, the count
  and bytes the by-type breakdown gives a type.
\<close>

definition sumOf :: "(PrefixAgg \<Rightarrow> 'a::comm_monoid_add) \<Rightarrow> PrefixAgg list \<Rightarrow> string \<Rightarrow> 'a" where
  "sumOf f ps p = sum_list (map f (filter (\<lambda>a. prefix a = p) ps))"

definition valOf :: "(PrefixAgg \<Rightarrow> 'a::comm_monoid_add) \<Rightarrow> (string \<times> PrefixAgg) list \<Rightarrow> string \<Rightarrow> 'a" where
  "valOf f mp p = (case dget mp p of None \<Rightarrow> 0 | Some a \<Rightarrow> f a)"

definition additive :: "(PrefixAgg \<Rightarrow> 'a::comm_monoid_add) \<Rightarrow> bool" where
  "additive f \<longleftrightarrow> (\<forall>e x. f (mergePrefixV e x) = f e + f x)"

definition histAt :: "(string \<times> nat) list \<Rightarrow> string \<Rightarrow> nat" where
  "histAt h l = sum_list (map snd (filter (\<lambda>e. fst e = l) h))"

definition typeAt :: "(TypeStats \<Rightarrow> 'a::comm_monoid_add) \<Rightarrow> (string \<times> TypeStats) list \<Rightarrow> string \<Rightarrow> 'a" where
  "typeAt g bt t = sum_list (map (\<lambda>e. g (snd e)) (filter (\<lambda>e. fst e = t) bt))"

definition totals :: "AggregationResult \<Rightarrow> string \<Rightarrow> string \<Rightarrow> string \<Rightarrow> nat \<times> int \<times> nat \<times> nat \<times> nat \<times> int" where
  "totals r p l t =
     (sumOf count (prefixes r) p,
      sumOf pa_estBytes (prefixes r) p,
      sumOf (\<lambda>a. histAt (ttlHist a) l) (prefixes r) p,
      sumOf (\<lambda>a. histAt (idleHist a) l) (prefixes r) p,
      sumOf (\<lambda>a. typeAt ts_count (byType a) t) (prefixes r) p,
      sumOf (\<lambda>a. typeAt ts_estBytes (byType a) t) (prefixes r) p)"

section \<open>Sample data\<close>

text \<open>The scenario of the specification, with the route's defaults for the other fields.\<close>

definition scenarioConfig :: ScanConfig where
  "scenarioConfig =
     \<lparr>dbs = [0], sampleLimit = 5, scanCount = 1000, ttlBuckets = [0, 60, 300],
      idleBuckets = [0, 60], sizeTopN = 20\<rparr>"

definition scenarioKeys :: "KeyMeta list" where
  "scenarioKeys =
     [\<lparr>key = ''a:1'', ktype = ''string'', ttlMs = None, idleSec = None,
       estBytes = Some 10, db = None\<rparr>,
      \<lparr>key = ''a:2'', ktype = ''string'', ttlMs = Some 30000, idleSec = None,
       estBytes = Some 20, db = None\<rparr>]"

definition stringKey :: "string \<Rightarrow> int option \<Rightarrow> KeyMeta" where
  "stringKey name est =
     \<lparr>key = name, ktype = ''string'', ttlMs = None, idleSec = None, estBytes = est, db = None\<rparr>"

definition top1Config :: ScanConfig where
  "top1Config = scenarioConfig\<lparr>sizeTopN := 1\<rparr>"

definition limit2Config :: ScanConfig where
  "limit2Config = scenarioConfig\<lparr>sampleLimit := 2\<rparr>"


text \<open>Limits that the route passes on unchanged: a negative one and a fractional one.\<close>

definition negativeConfig :: ScanConfig where
  "negativeConfig = scenarioConfig\<lparr>sampleLimit := - 1\<rparr>"


text \<open>Three partial results, each the aggregation of one key.\<close>

definition partialA :: AggregationResult where
  "partialA = aggregateKeys [stringKey ''p'' None] top1Config '':''"

definition partialB :: AggregationResult where
  "partialB = aggregateKeys [stringKey ''q'' (Some 5)] top1Config '':''"

definition partialC :: AggregationResult where
  "partialC = aggregateKeys [stringKey ''p'' (Some 5)] top1Config '':''"

text \<open>A connection on which every command fails.\<close>

definition deadRedis :: Redis where
  "deadRedis =
     \<lparr>selected = 0, host = ''127.0.0.1'', port = 6379,
      infoReply = Inl ''ERR'',
      selectReply = (\<lambda>d. Some ''ERR''),
      scanReply = (\<lambda>d cursor. Inl ''ERR''),
      execReply = (\<lambda>d ks. Inl ''ERR''),
      typeReply = (\<lambda>d k. Inl ''ERR''),
      pttlReply = (\<lambda>d k. Inl ''ERR''),
      idleReply = (\<lambda>d k. Inl ''ERR''),
      memoryReply = (\<lambda>d k. Inl ''ERR unknown command''),
      getReply = (\<lambda>d k. Inl ''ERR''),
      hlenReply = (\<lambda>d k. Inl ''ERR''),
      hscanReply = (\<lambda>d k n. Inl ''ERR''),
      llenReply = (\<lambda>d k. Inl ''ERR''),
      lrangeReply = (\<lambda>d k n. Inl ''ERR''),
      scardReply = (\<lambda>d k. Inl ''ERR''),
      sscanReply = (\<lambda>d k n. Inl ''ERR''),
      zcardReply = (\<lambda>d k. Inl ''ERR''),
      zrevrangeReply = (\<lambda>d k n. Inl ''ERR''),
      xinfoReply = (\<lambda>d k. Inl ''ERR'')\<rparr>"

text \<open>
  A store whose \<open>INFO\<close> reports one key while \<open>SCAN\<close> returns three string keys in one
  batch. \<open>MEMORY USAGE\<close> and \<open>GET\<close> still fail on it.
\<close>

definition staleRedis :: Redis where
  "staleRedis =
     deadRedis
       \<lparr>infoReply := Inr (''# Keyspace'' @ [CHR 0x0D, CHR 0x0A]
                          @ ''db0:keys=1,expires=0,avg_ttl=0'' @ [CHR 0x0D, CHR 0x0A]),
        selectReply := (\<lambda>d. None),
        scanReply := (\<lambda>d cursor. Inr (''0'', [''a:1'', ''a:2'', ''a:3''])),
        execReply := (\<lambda>d ks. Inr True),
        typeReply := (\<lambda>d k. Inr ''string''),
        pttlReply := (\<lambda>d k. Inr (- 1)),
        idleReply := (\<lambda>d k. Inr 5)\<rparr>"



text \<open>The same store with an \<open>INFO\<close> that reports its three keys.\<close>

definition exactRedis :: Redis where
  "exactRedis =
     staleRedis\<lparr>infoReply := Inr (''db0:keys=3,expires=0,avg_ttl=0'' @ [CHR 0x0D, CHR 0x0A])\<rparr>"

text \<open>The same store with \<open>MEMORY USAGE\<close> answering 7 bytes for every key.\<close>

definition nativeRedis :: Redis where
  "nativeRedis = staleRedis\<lparr>memoryReply := (\<lambda>d k. Inr (Some 7))\<rparr>"

text \<open>
  Partial results as objects: a heap that holds the histograms and by-type records of
  given values at addresses of their own, counted up from \<open>n\<close>, and the references to
  them.
\<close>

definition emptyHeap :: Heap where
  "emptyHeap = \<lparr>histCell = (\<lambda>a. []), typeCell = (\<lambda>a. [])\<rparr>"

fun placePrefixes :: "Heap \<Rightarrow> nat \<Rightarrow> PrefixAgg list \<Rightarrow> Heap \<times> PrefixRef list" where
  "placePrefixes h n [] = (h, [])"
| "placePrefixes h n (p # ps) =
     (case placePrefixes
             (h\<lparr>histCell := (histCell h)(2 * n := ttlHist p, 2 * n + 1 := idleHist p),
                typeCell := (typeCell h)(n := byType p)\<rparr>) (Suc n) ps of
        (h', rs) \<Rightarrow>
          (h', \<lparr>r_prefix = prefix p, r_count = count p, r_estBytes = pa_estBytes p,
                r_ttlHist = 2 * n, r_idleHist = 2 * n + 1, r_byType = n\<rparr> # rs))"

fun placeAll :: "Heap \<Rightarrow> nat \<Rightarrow> AggregationResult list \<Rightarrow> Heap \<times> ResultRef list" where
  "placeAll h n [] = (h, [])"
| "placeAll h n (x # xs) =
     (case placePrefixes h n (prefixes x) of
        (h1, ps) \<Rightarrow>
          (case placeAll h1 (n + length (prefixes x)) xs of
             (h2, rs) \<Rightarrow> (h2, \<lparr>r_prefixes = ps, r_topN = topN x\<rparr> # rs)))"

text \<open>The three partial results as separate objects, and the result of the scenario.\<close>

definition partsHeap :: Heap where
  "partsHeap = fst (placeAll emptyHeap 0 [partialA, partialB, partialC])"

definition refA :: ResultRef where
  "refA = snd (placeAll emptyHeap 0 [partialA, partialB, partialC]) ! 0"

definition refB :: ResultRef where
  "refB = snd (placeAll emptyHeap 0 [partialA, partialB, partialC]) ! 1"

definition refC :: ResultRef where
  "refC = snd (placeAll emptyHeap 0 [partialA, partialB, partialC]) ! 2"

definition scenarioHeap :: Heap where
  "scenarioHeap = fst (placeAll emptyHeap 0 [aggregateKeys scenarioKeys scenarioConfig '':''])"

definition scenarioRef :: ResultRef where
  "scenarioRef = hd (snd (placeAll emptyHeap 0 [aggregateKeys scenarioKeys scenarioConfig '':'']))"

section \<open>Supporting lemmas\<close>

subsection \<open>Dictionaries\<close>

lemma dget_dset: "dget (dset k v m) k' = (if k' = k then Some v else dget m k')"
  by (induction m) auto

lemma dget_None_iff: "dget m k = None \<longleftrightarrow> k \<notin> fst ` set m"
proof (induction m)
  case Nil
  show ?case by simp
next
  case (Cons e m)
  obtain k' v' where e: "e = (k', v')" by (cases e)
  show ?case using Cons.IH by (simp add: e)
qed

lemma keys_dset_in: "dget m k \<noteq> None \<Longrightarrow> map fst (dset k v m) = map fst m"
  by (induction m) auto

lemma keys_dset_notin: "dget m k = None \<Longrightarrow> map fst (dset k v m) = map fst m @ [k]"
  by (induction m) (auto split: if_splits)

lemma distinct_dset: "distinct (map fst m) \<Longrightarrow> distinct (map fst (dset k v m))"
  by (cases "dget m k = None") (simp_all add: keys_dset_in keys_dset_notin dget_None_iff)

lemma set_dset_subset: "set (dset k v m) \<subseteq> insert (k, v) (set m)"
  by (induction m) (auto split: if_splits)

lemma all_dset: "P v \<Longrightarrow> \<forall>e \<in> set m. P (snd e) \<Longrightarrow> \<forall>e \<in> set (dset k v m). P (snd e)"
proof
  fix e assume "e \<in> set (dset k v m)"
  then have "e = (k, v) \<or> e \<in> set m" using set_dset_subset [of k v m] by blast
  moreover assume "P v" "\<forall>e \<in> set m. P (snd e)"
  ultimately show "P (snd e)" by auto
qed

lemma dget_in_set: "dget m k = Some v \<Longrightarrow> (k, v) \<in> set m"
  by (induction m) (auto split: if_splits)

subsection \<open>Histogram and by-type totals\<close>

lemma histTotal_histAdd: "histTotal (histAdd l n h) = histTotal h + n"
  unfolding histTotal_def histAdd_def
  by (induction h) (auto simp: orZero_def)

lemma typeTotal_dset:
  "typeTotal (dset t st bt) + (case dget bt t of None \<Rightarrow> 0 | Some s \<Rightarrow> ts_count s) = typeTotal bt + ts_count st"
  unfolding typeTotal_def
  by (induction bt) auto

subsection \<open>The aggregate invariant\<close>

lemma count_update: "count (updatePrefixAgg a k c) = count a + 1"
  by (cases "idleSec k"; cases "truthy (estBytes k)") (simp_all add: updatePrefixAgg_def Let_def)

lemma ttlHist_update: "ttlHist (updatePrefixAgg a k c) = histAdd (getTTLBucketLabel (ttlMs k) (ttlBuckets c)) 1 (ttlHist a)"
  by (cases "idleSec k"; cases "truthy (estBytes k)") (simp_all add: updatePrefixAgg_def Let_def)

lemma idleHist_update: "idleHist (updatePrefixAgg a k c) = 
   (case idleSec k of None \<Rightarrow> idleHist a | Some idle \<Rightarrow> histAdd (getIdleBucketLabel idle (idleBuckets c)) 1 (idleHist a))"
  by (cases "idleSec k"; cases "truthy (estBytes k)") (simp_all add: updatePrefixAgg_def Let_def)

lemma estBytes_update: "pa_estBytes (updatePrefixAgg a k c) = 
   (if truthy (estBytes k) then pa_estBytes a + the (estBytes k) else pa_estBytes a)"
  by (cases "idleSec k"; cases "truthy (estBytes k)") (simp_all add: updatePrefixAgg_def Let_def)

lemma prefix_update: "prefix (updatePrefixAgg a k c) = prefix a"
  by (cases "idleSec k"; cases "truthy (estBytes k)") (simp_all add: updatePrefixAgg_def Let_def)

lemma byType_update: "byType (updatePrefixAgg a k c) =
   (let st0 = (case dget (byType a) (ktype k) of None \<Rightarrow> emptyTypeStats | Some st \<Rightarrow> st)
    in dset (ktype k)
         (st0\<lparr>ts_count := ts_count st0 + 1,
          ts_estBytes := (if truthy (estBytes k) then ts_estBytes st0 + the (estBytes k) else ts_estBytes st0)\<rparr>)
         (byType a))"
  by (cases "idleSec k"; cases "truthy (estBytes k)") (simp_all add: updatePrefixAgg_def Let_def)

lemma aggInvariant_empty: "aggInvariant (createEmptyPrefixAgg p)"
  by (simp add: aggInvariant_def createEmptyPrefixAgg_def typeTotal_def histTotal_def)

lemma typeTotal_update: "typeTotal (byType (updatePrefixAgg a k c)) = typeTotal (byType a) + 1"
proof -
  define st0 where "st0 = (case dget (byType a) (ktype k) of None \<Rightarrow> emptyTypeStats | Some st \<Rightarrow> st)"
  define st where "st = st0\<lparr>ts_count := ts_count st0 + 1,
          ts_estBytes := (if truthy (estBytes k) then ts_estBytes st0 + the (estBytes k) else ts_estBytes st0)\<rparr>"
  have bt: "byType (updatePrefixAgg a k c) = dset (ktype k) st (byType a)"
    by (simp add: byType_update Let_def st_def st0_def)
  have "(case dget (byType a) (ktype k) of None \<Rightarrow> 0 | Some s \<Rightarrow> ts_count s) = ts_count st0"
    by (cases "dget (byType a) (ktype k)") (simp_all add: emptyTypeStats_def st0_def)
  moreover have "ts_count st = ts_count st0 + 1" by (simp add: st_def)
  ultimately show ?thesis
    using typeTotal_dset [of "ktype k" st "byType a"] by (simp add: bt)
qed

lemma aggInvariant_update: "aggInvariant a \<Longrightarrow> aggInvariant (updatePrefixAgg a k c)"
  by (simp add: aggInvariant_def count_update ttlHist_update idleHist_update typeTotal_update
      histTotal_histAdd split: option.splits)

lemma aggPrefixes_invariant:
  "\<forall>e \<in> set pm. aggInvariant (snd e) \<Longrightarrow> \<forall>e \<in> set (aggPrefixes pm k c ps). aggInvariant (snd e)"
proof (induction ps arbitrary: pm)
  case Nil
  then show ?case by simp
next
  case (Cons p ps)
  let ?pm1 = "if dget pm p = None then dset p (createEmptyPrefixAgg p) pm else pm"
  have pm1: "\<forall>e \<in> set ?pm1. aggInvariant (snd e)"
    using Cons.prems all_dset [of aggInvariant "createEmptyPrefixAgg p" pm p, OF aggInvariant_empty] by simp
  have "dget ?pm1 p \<noteq> None" by (simp add: dget_dset)
  then obtain a where a: "dget ?pm1 p = Some a" by blast
  then have "(p, a) \<in> set ?pm1" by (rule dget_in_set)
  then have "aggInvariant a" using pm1 by fastforce
  then have "aggInvariant (updatePrefixAgg a k c)" by (rule aggInvariant_update)
  then have "\<forall>e \<in> set (dset p (updatePrefixAgg a k c) ?pm1). aggInvariant (snd e)"
    using pm1 by (rule all_dset)
  from Cons.IH [OF this] a show ?case by (simp add: Let_def)
qed

lemma aggLoop_invariant:
  "\<forall>e \<in> set (fst s). aggInvariant (snd e) \<Longrightarrow> \<forall>e \<in> set (fst (aggLoop s c d ks)). aggInvariant (snd e)"
proof (induction s c d ks rule: aggLoop.induct)
  case (1 pm tm config delimiter)
  then show ?case by simp
next
  case (2 pm tm config delimiter k ks)
  then show ?case using aggPrefixes_invariant by simp
qed

subsection \<open>Zero and absent estimates\<close>

lemma truthy_zeroAsAbsent: "truthy (estBytes (zeroAsAbsent k)) = truthy (estBytes k)"
  by (simp add: zeroAsAbsent_def truthy_def)

lemma the_zeroAsAbsent: "truthy (estBytes k) \<Longrightarrow> estBytes (zeroAsAbsent k) = estBytes k"
  by (auto simp: zeroAsAbsent_def truthy_def)

lemma fields_zeroAsAbsent:
  "key (zeroAsAbsent k) = key k" "ktype (zeroAsAbsent k) = ktype k"
  "ttlMs (zeroAsAbsent k) = ttlMs k" "idleSec (zeroAsAbsent k) = idleSec k"
  by (simp_all add: zeroAsAbsent_def)

lemma zeroAsAbsent_truthy_id: "truthy (estBytes k) \<Longrightarrow> zeroAsAbsent k = k"
  by (auto simp: zeroAsAbsent_def truthy_def)

lemma updatePrefixAgg_zeroAsAbsent: "updatePrefixAgg a (zeroAsAbsent k) c = updatePrefixAgg a k c"
proof (cases "truthy (estBytes k)")
  case True
  then show ?thesis by (simp add: zeroAsAbsent_truthy_id)
next
  case False
  then have "\<not> truthy (estBytes (zeroAsAbsent k))" by (simp add: truthy_zeroAsAbsent)
  with False show ?thesis
    by (simp add: updatePrefixAgg_def fields_zeroAsAbsent)
qed

lemma aggPrefixes_zeroAsAbsent: "aggPrefixes pm (zeroAsAbsent k) c ps = aggPrefixes pm k c ps"
  by (induction ps arbitrary: pm) (simp_all add: updatePrefixAgg_zeroAsAbsent)

lemma aggTopN_zeroAsAbsent: "aggTopN tm (zeroAsAbsent k) c = aggTopN tm k c"
proof (cases "truthy (estBytes k)")
  case True
  then show ?thesis by (simp add: zeroAsAbsent_truthy_id)
next
  case False
  then have "\<not> truthy (estBytes (zeroAsAbsent k))" by (simp add: truthy_zeroAsAbsent)
  with False show ?thesis
    by (simp add: aggTopN_def fields_zeroAsAbsent)
qed

lemma aggLoop_zeroAsAbsent: "aggLoop s c d (map zeroAsAbsent ks) = aggLoop s c d ks"
  by (induction s c d ks rule: aggLoop.induct)
    (simp_all add: aggPrefixes_zeroAsAbsent aggTopN_zeroAsAbsent fields_zeroAsAbsent)

lemma aggTopN_not_truthy:
  "\<not> truthy (estBytes k) \<Longrightarrow>
     aggTopN tm k c = (if dget tm (ktype k) = None then dset (ktype k) [] tm else tm)"
  by (simp add: aggTopN_def)

lemma typeBytes_dset:
  "typeBytes (dset t st bt) + (case dget bt t of None \<Rightarrow> 0 | Some s \<Rightarrow> ts_estBytes s) = typeBytes bt + ts_estBytes st"
  unfolding typeBytes_def
  by (induction bt) auto

lemma typeBytes_update:
  "typeBytes (byType (updatePrefixAgg a k c)) =
     typeBytes (byType a) + (if truthy (estBytes k) then the (estBytes k) else 0)"
proof -
  define st0 where "st0 = (case dget (byType a) (ktype k) of None \<Rightarrow> emptyTypeStats | Some st \<Rightarrow> st)"
  define st where "st = st0\<lparr>ts_count := ts_count st0 + 1,
          ts_estBytes := (if truthy (estBytes k) then ts_estBytes st0 + the (estBytes k) else ts_estBytes st0)\<rparr>"
  have bt: "byType (updatePrefixAgg a k c) = dset (ktype k) st (byType a)"
    by (simp add: byType_update Let_def st_def st0_def)
  have "(case dget (byType a) (ktype k) of None \<Rightarrow> 0 | Some s \<Rightarrow> ts_estBytes s) = ts_estBytes st0"
    by (cases "dget (byType a) (ktype k)") (simp_all add: emptyTypeStats_def st0_def)
  moreover have "ts_estBytes st = ts_estBytes st0 + (if truthy (estBytes k) then the (estBytes k) else 0)"
    by (simp add: st_def)
  ultimately show ?thesis
    using typeBytes_dset [of "ktype k" st "byType a"] by (simp add: bt)
qed

subsection \<open>Well-keyed maps and the single-element merge\<close>

lemma dset_append: "dget m k = None \<Longrightarrow> dset k v m = m @ [(k, v)]"
  by (induction m) (auto split: if_splits)

lemma wellKeyed_dset:
  assumes "wellKeyed pm" and "prefix a = p"
  shows "wellKeyed (dset p a pm)"
proof -
  have "\<forall>e \<in> set (dset p a pm). prefix (snd e) = fst e"
  proof
    fix e assume "e \<in> set (dset p a pm)"
    then have "e = (p, a) \<or> e \<in> set pm" using set_dset_subset [of p a pm] by blast
    then show "prefix (snd e) = fst e" using assms by (auto simp: wellKeyed_def)
  qed
  then show ?thesis using assms(1) by (simp add: wellKeyed_def distinct_dset)
qed

lemma wellKeyed_get:
  assumes "wellKeyed pm" and "dget pm p = Some a"
  shows "prefix a = p"
proof -
  from assms(2) have "(p, a) \<in> set pm" by (rule dget_in_set)
  with assms(1) show ?thesis by (fastforce simp: wellKeyed_def)
qed

lemma aggPrefixes_wellKeyed: "wellKeyed pm \<Longrightarrow> wellKeyed (aggPrefixes pm k c ps)"
proof (induction ps arbitrary: pm)
  case Nil
  then show ?case by simp
next
  case (Cons p ps)
  let ?pm1 = "if dget pm p = None then dset p (createEmptyPrefixAgg p) pm else pm"
  have pm1: "wellKeyed ?pm1"
    using Cons.prems by (simp add: wellKeyed_dset createEmptyPrefixAgg_def)
  have "dget ?pm1 p \<noteq> None" by (simp add: dget_dset)
  then obtain a where a: "dget ?pm1 p = Some a" by blast
  with pm1 have "prefix a = p" by (rule wellKeyed_get)
  then have "prefix (updatePrefixAgg a k c) = p" by (simp add: prefix_update)
  with pm1 have "wellKeyed (dset p (updatePrefixAgg a k c) ?pm1)" by (rule wellKeyed_dset)
  from Cons.IH [OF this] a show ?case by (simp add: Let_def)
qed

lemma aggTopN_distinct: "distinct (map fst tm) \<Longrightarrow> distinct (map fst (aggTopN tm k c))"
  by (simp add: aggTopN_def Let_def distinct_dset)

lemma aggLoop_wellKeyed:
  "wellKeyed (fst s) \<Longrightarrow> distinct (map fst (snd s)) \<Longrightarrow>
     wellKeyed (fst (aggLoop s c d ks)) \<and> distinct (map fst (snd (aggLoop s c d ks)))"
  by (induction s c d ks rule: aggLoop.induct) (simp_all add: aggPrefixes_wellKeyed aggTopN_distinct)

lemma mergePrefixes_fresh:
  "distinct (map fst mp @ map r_prefix ps) \<Longrightarrow>
     mergePrefixes h mp ps = (h, mp @ map (\<lambda>p. (r_prefix p, p)) ps)"
proof (induction ps arbitrary: mp)
  case Nil
  then show ?case by simp
next
  case (Cons p ps)
  from Cons.prems have "r_prefix p \<notin> fst ` set mp" by auto
  then have none: "dget mp (r_prefix p) = None" by (simp add: dget_None_iff)
  have "distinct (map fst (mp @ [(r_prefix p, p)]) @ map r_prefix ps)"
    using Cons.prems by auto
  from Cons.IH [OF this] none show ?case by (simp add: dset_append)
qed

lemma mergeTopN_fresh:
  "distinct (map fst mt @ map fst tm) \<Longrightarrow> mergeTopN mt tm = mt @ tm"
proof (induction tm arbitrary: mt)
  case Nil
  then show ?case by simp
next
  case (Cons e tm)
  obtain t l where e: "e = (t, l)" by (cases e)
  from Cons.prems have "t \<notin> fst ` set mt" by (auto simp: e)
  then have none: "dget mt t = None" by (simp add: dget_None_iff)
  have "distinct (map fst (mt @ [(t, l)]) @ map fst tm)"
    using Cons.prems by (auto simp: e)
  from Cons.IH [OF this] none show ?case by (simp add: dset_append e)
qed

lemma sortPrefixes_idem: "sortPrefixes (sortPrefixes ps) = sortPrefixes ps"
  unfolding sortPrefixes_def by (rule sort_key_id_if_sorted) simp

lemma distinct_map_sortPrefixes: "distinct (map f ps) \<Longrightarrow> distinct (map f (sortPrefixes ps))"
  by (simp add: distinct_map sortPrefixes_def)

lemma sortRefs_idem: "sortRefs (sortRefs ps) = sortRefs ps"
  unfolding sortRefs_def by (rule sort_key_id_if_sorted) simp

lemma distinct_map_sortRefs: "distinct (map f ps) \<Longrightarrow> distinct (map f (sortRefs ps))"
  by (simp add: distinct_map sortRefs_def)

lemma merge_single:
  assumes "distinct (map r_prefix (r_prefixes x))" and "distinct (map fst (r_topN x))"
    and "sortRefs (r_prefixes x) = r_prefixes x"
  shows "mergeAggregations h [x] = (h, x)"
proof -
  have "mergePrefixes h [] (r_prefixes x) = (h, map (\<lambda>p. (r_prefix p, p)) (r_prefixes x))"
    using mergePrefixes_fresh [of "[]" "r_prefixes x" h] assms(1) by simp
  moreover have "mergeTopN [] (r_topN x) = r_topN x"
    using mergeTopN_fresh [of "[]" "r_topN x"] assms(2) by simp
  ultimately show ?thesis
    using assms(3) by (simp add: mergeAggregations_def comp_def)
qed

subsection \<open>Bounds of the top-N lists\<close>













lemma mergeLoop_topN:
  "snd (snd (mergeLoop (h, mp, mt) rs)) = foldl mergeTopN mt (map r_topN rs)"
proof (induction rs arbitrary: h mp mt)
  case Nil
  then show ?case by simp
next
  case (Cons r rs)
  obtain h' mp' where "mergePrefixes h mp (r_prefixes r) = (h', mp')"
    by (cases "mergePrefixes h mp (r_prefixes r)")
  with Cons.IH [of h' mp' "mergeTopN mt (r_topN r)"] show ?case by simp
qed





subsection \<open>Size estimation\<close>

lemma byteLength_nonneg: "0 \<le> byteLength s"
  by (simp add: byteLength_def)

lemma elementsSize_nonneg: "0 \<le> elementsSize xs"
  unfolding elementsSize_def by (induction xs) (simp_all add: byteLength_def)

lemma pairsSize_nonneg: "pairsSize xs = Some n \<Longrightarrow> 0 \<le> n"
  by (induction xs arbitrary: n rule: pairsSize.induct)
    (auto simp: byteLength_def split: option.splits)

lemma extrapolate_nonneg: "0 \<le> t \<Longrightarrow> 0 \<le> extrapolate t s n"
  by (simp add: extrapolate_def)

lemma estimateStringSize_nonneg: "0 \<le> estimateStringSize c k"
  by (simp add: estimateStringSize_def byteLength_def split: sum.splits option.splits)

lemma estimateHashSize_nonneg: "0 \<le> estimateHashSize c k"
  by (auto simp: estimateHashSize_def Let_def extrapolate_nonneg dest: pairsSize_nonneg
      split: sum.splits option.splits)

lemma estimateListSize_nonneg: "0 \<le> estimateListSize c k"
  by (simp add: estimateListSize_def Let_def extrapolate_nonneg elementsSize_nonneg
      split: sum.splits)

lemma estimateSetSize_nonneg: "0 \<le> estimateSetSize c k"
  by (simp add: estimateSetSize_def Let_def extrapolate_nonneg elementsSize_nonneg
      split: sum.splits)

lemma estimateZSetSize_nonneg: "0 \<le> estimateZSetSize c k"
  by (auto simp: estimateZSetSize_def Let_def extrapolate_nonneg dest: pairsSize_nonneg
      split: sum.splits option.splits)

lemma estimateStreamSize_nonneg: "0 \<le> estimateStreamSize c k"
  by (simp add: estimateStreamSize_def split: sum.splits)

lemma heuristic_overhead: "baseOverhead \<le> estimateKeySizeHeuristic c k t"
  using estimateStringSize_nonneg [of c k] estimateHashSize_nonneg [of c k]
    estimateListSize_nonneg [of c k] estimateSetSize_nonneg [of c k]
    estimateZSetSize_nonneg [of c k] estimateStreamSize_nonneg [of c k]
  by (simp add: estimateKeySizeHeuristic_def)

lemma estimateKeySize_native:
  "memoryReply c (selected c) k = Inr (Some m) \<Longrightarrow> 0 < m \<Longrightarrow> estimateKeySize c k t = Inr m"
  by (simp add: estimateKeySize_def)

lemma estimateKeySize_fallback:
  "\<forall>m. memoryReply c (selected c) k = Inr (Some m) \<longrightarrow> m \<le> 0 \<Longrightarrow>
     estimateKeySize c k t = Inr (estimateKeySizeHeuristic c k t)"
  by (auto simp: estimateKeySize_def split: sum.splits option.splits)




subsection \<open>The stop rule\<close>





subsection \<open>The cursor loop visits the batches of the walk\<close>



subsection \<open>The keys of a whole scan\<close>





subsection \<open>The returned object\<close>



lemma scanResult_fields:
  "keys (scanResult cfg t (ks, calls, errs)) = slice0 ks (sampleLimit cfg)"
  "sampled (stats (scanResult cfg t (ks, calls, errs))) = min (of_nat (length ks)) (sampleLimit cfg)"
  "approxTotalKeys (stats (scanResult cfg t (ks, calls, errs))) = t"
  "coverage (stats (scanResult cfg t (ks, calls, errs))) =
     (if t > 0 then min (of_nat (length ks)) (sampleLimit cfg) / of_nat t else 0)"
  by (simp_all add: scanResult_def)


lemma scanResult_coverage:
  assumes "r = scanResult cfg t st"
  shows "coverage (stats r) =
           (if approxTotalKeys (stats r) > 0
            then sampled (stats r) / of_nat (approxTotalKeys (stats r)) else 0)
    \<and> (0 \<le> sampleLimit cfg \<longrightarrow> 0 \<le> coverage (stats r))
    \<and> (sampled (stats r) \<le> of_nat (approxTotalKeys (stats r)) \<longrightarrow> coverage (stats r) \<le> 1)
    \<and> (0 < approxTotalKeys (stats r) \<and> of_nat (approxTotalKeys (stats r)) < sampled (stats r)
         \<longrightarrow> 1 < coverage (stats r))
    \<and> (0 < approxTotalKeys (stats r) \<and> sampleLimit cfg < 0 \<longrightarrow> coverage (stats r) < 0)"
proof -
  obtain ks calls errs where st: "st = (ks, calls, errs)" by (cases st)
  show ?thesis unfolding assms st
    by (simp add: scanResult_fields min_def divide_neg_pos)
qed

subsection \<open>Termination of the scan\<close>







subsection \<open>Merged fields are sums\<close>

lemma valOf_dset: "valOf f (dset k v mp) p = (if p = k then f v else valOf f mp p)"
  by (simp add: valOf_def dget_dset)

lemma valOf_mergePrefixesV:
  assumes "additive f"
  shows "valOf f (mergePrefixesV mp ps) p = valOf f mp p + sumOf f ps p"
proof (induction ps arbitrary: mp)
  case Nil
  then show ?case by (simp add: sumOf_def)
next
  case (Cons x ps)
  let ?mp = "case dget mp (prefix x) of None \<Rightarrow> dset (prefix x) x mp
             | Some existing \<Rightarrow> dset (prefix x) (mergePrefixV existing x) mp"
  have step: "valOf f ?mp p = valOf f mp p + (if prefix x = p then f x else 0)"
  proof (cases "dget mp (prefix x)")
    case None
    then have "valOf f mp (prefix x) = 0" by (simp add: valOf_def)
    with None show ?thesis by (auto simp: valOf_dset)
  next
    case (Some existing)
    have "f (mergePrefixV existing x) = f existing + f x"
      using assms by (simp add: additive_def)
    moreover from Some have "valOf f mp (prefix x) = f existing" by (simp add: valOf_def)
    ultimately show ?thesis using Some by (auto simp: valOf_dset)
  qed
  have "valOf f (mergePrefixesV mp (x # ps)) p = valOf f (mergePrefixesV ?mp ps) p" by simp
  also have "\<dots> = valOf f ?mp p + sumOf f ps p" by (rule Cons.IH)
  also have "\<dots> = valOf f mp p + sumOf f (x # ps) p"
    by (simp add: step sumOf_def add.assoc)
  finally show ?case .
qed

lemma valOf_mergeLoopV:
  assumes "additive f"
  shows "valOf f (fst (mergeLoopV s rs)) p = valOf f (fst s) p + (\<Sum>r\<leftarrow>rs. sumOf f (prefixes r) p)"
proof (induction s rs rule: mergeLoopV.induct)
  case (1 mp mt)
  then show ?case by simp
next
  case (2 mp mt r rs)
  then show ?case by (simp add: valOf_mergePrefixesV [OF assms] add.assoc)
qed

lemma prefix_mergePrefixV: "prefix (mergePrefixV e x) = prefix e"
  by (simp add: mergePrefixV_def)

lemma mergePrefixesV_wellKeyed: "wellKeyed mp \<Longrightarrow> wellKeyed (mergePrefixesV mp ps)"
proof (induction ps arbitrary: mp)
  case Nil
  then show ?case by simp
next
  case (Cons x ps)
  let ?mp = "case dget mp (prefix x) of None \<Rightarrow> dset (prefix x) x mp
             | Some existing \<Rightarrow> dset (prefix x) (mergePrefixV existing x) mp"
  have "wellKeyed ?mp"
  proof (cases "dget mp (prefix x)")
    case None
    then show ?thesis using Cons.prems by (simp add: wellKeyed_dset)
  next
    case (Some existing)
    with Cons.prems have "prefix existing = prefix x" by (rule wellKeyed_get)
    then have "prefix (mergePrefixV existing x) = prefix x" by (simp add: prefix_mergePrefixV)
    with Some show ?thesis using Cons.prems by (simp add: wellKeyed_dset)
  qed
  from Cons.IH [OF this] show ?case by simp
qed

lemma mergeLoopV_wellKeyed: "wellKeyed (fst s) \<Longrightarrow> wellKeyed (fst (mergeLoopV s rs))"
  by (induction s rs rule: mergeLoopV.induct) (simp_all add: mergePrefixesV_wellKeyed)

lemma sumOf_wellKeyed: "wellKeyed mp \<Longrightarrow> sumOf f (map snd mp) p = valOf f mp p"
proof (induction mp)
  case Nil
  then show ?case by (simp add: sumOf_def valOf_def)
next
  case (Cons e mp)
  obtain k a where e: "e = (k, a)" by (cases e)
  from Cons.prems have wk: "wellKeyed mp" and ka: "prefix a = k" and fresh: "k \<notin> fst ` set mp"
    by (auto simp: wellKeyed_def e)
  show ?case
  proof (cases "k = p")
    case True
    with fresh have "dget mp p = None" by (simp add: dget_None_iff)
    then have "valOf f mp p = 0" by (simp add: valOf_def)
    with Cons.IH [OF wk] True ka show ?thesis by (simp add: sumOf_def valOf_def e)
  next
    case False
    with Cons.IH [OF wk] ka show ?thesis by (simp add: sumOf_def valOf_def e)
  qed
qed

lemma sumOf_sortPrefixes: "sumOf f (sortPrefixes ps) p = sumOf f ps p"
proof -
  have "mset (map f (filter (\<lambda>a. prefix a = p) (sortPrefixes ps)))
      = mset (map f (filter (\<lambda>a. prefix a = p) ps))"
    by (simp add: sortPrefixes_def)
  then have "sum_mset (mset (map f (filter (\<lambda>a. prefix a = p) (sortPrefixes ps))))
      = sum_mset (mset (map f (filter (\<lambda>a. prefix a = p) ps)))"
    by (simp only:)
  then show ?thesis by (simp only: sumOf_def sum_mset_sum_list)
qed

lemma sumOf_mergeValues:
  assumes "additive f"
  shows "sumOf f (prefixes (mergeValues rs)) p = (\<Sum>r\<leftarrow>rs. sumOf f (prefixes r) p)"
proof -
  obtain mp mt where s: "mergeLoopV ([], []) rs = (mp, mt)" by fastforce
  have "wellKeyed (fst (mergeLoopV ([], []) rs))"
    by (rule mergeLoopV_wellKeyed) (simp add: wellKeyed_def)
  with s have wk: "wellKeyed mp" by simp
  from valOf_mergeLoopV [OF assms, of "([], [])" rs p] s have "valOf f mp p = (\<Sum>r\<leftarrow>rs. sumOf f (prefixes r) p)" by (simp add: valOf_def)
  then show ?thesis
    by (simp add: mergeValues_def s sumOf_sortPrefixes sumOf_wellKeyed [OF wk])
qed

subsection \<open>Histograms, by-type breakdown and top-N of a merge\<close>

lemma histAt_histAdd: "histAt (histAdd k n h) l = histAt h l + (if l = k then n else 0)"
  unfolding histAt_def histAdd_def
  by (induction h) (auto simp: orZero_def)

lemma histAt_mergeHist: "histAt (mergeHist e h) l = histAt e l + histAt h l"
proof (induction e h rule: mergeHist.induct)
  case (1 existing)
  then show ?case by (simp add: histAt_def)
next
  case (2 existing label n h)
  have "histAt ((label, n) # h) l = (if l = label then n else 0) + histAt h l"
    by (simp add: histAt_def)
  with 2 show ?case by (simp add: histAt_histAdd)
qed

lemma typeAt_dset:
  fixes g :: "TypeStats \<Rightarrow> 'a::cancel_comm_monoid_add"
  shows "typeAt g (dset k v bt) t + (if t = k then (case dget bt k of None \<Rightarrow> 0 | Some s \<Rightarrow> g s) else 0)
     = typeAt g bt t + (if t = k then g v else 0)"
  unfolding typeAt_def
  by (induction bt) (auto simp: ac_simps)

lemma typeAt_mergeByType:
  fixes g :: "TypeStats \<Rightarrow> 'a::cancel_comm_monoid_add"
  assumes "g emptyTypeStats = 0"
    and "\<And>s0 s. g (s0\<lparr>ts_count := ts_count s0 + ts_count s,
                        ts_estBytes := ts_estBytes s0 + ts_estBytes s\<rparr>) = g s0 + g s"
  shows "typeAt g (mergeByType e bt) t = typeAt g e t + typeAt g bt t"
proof (induction e bt rule: mergeByType.induct)
  case (1 existing)
  then show ?case by (simp add: typeAt_def)
next
  case (2 existing k st bt)
  define st0 where "st0 = (case dget existing k of None \<Rightarrow> emptyTypeStats | Some s \<Rightarrow> s)"
  define new where "new = st0\<lparr>ts_count := ts_count st0 + ts_count st,
                        ts_estBytes := ts_estBytes st0 + ts_estBytes st\<rparr>"
  have new: "g new = g st0 + g st" unfolding new_def by (rule assms(2))
  have old: "(case dget existing k of None \<Rightarrow> 0 | Some s \<Rightarrow> g s) = g st0"
    by (cases "dget existing k") (simp_all add: st0_def assms(1))
  have step: "typeAt g (dset k new existing) t = typeAt g existing t + (if t = k then g st else 0)"
    using typeAt_dset [of g k new existing t] new old by (auto simp: ac_simps)
  have "typeAt g (mergeByType existing ((k, st) # bt)) t = typeAt g (mergeByType (dset k new existing) bt) t"
    by (simp add: Let_def st0_def new_def)
  also have "\<dots> = typeAt g (dset k new existing) t + typeAt g bt t"
    using "2.IH" [of st0] by (simp add: st0_def new_def)
  also have "\<dots> = typeAt g existing t + typeAt g ((k, st) # bt) t"
  proof -
    have "typeAt g ((k, st) # bt) t = (if t = k then g st else 0) + typeAt g bt t"
      by (simp add: typeAt_def)
    then show ?thesis by (simp add: step ac_simps)
  qed
  finally show ?case .
qed

lemma additive_count: "additive count"
  by (simp add: additive_def mergePrefixV_def)

lemma additive_estBytes: "additive pa_estBytes"
  by (simp add: additive_def mergePrefixV_def)

lemma additive_ttl: "additive (\<lambda>a. histAt (ttlHist a) l)"
  by (simp add: additive_def mergePrefixV_def histAt_mergeHist)

lemma additive_idle: "additive (\<lambda>a. histAt (idleHist a) l)"
  by (simp add: additive_def mergePrefixV_def histAt_mergeHist)

lemma additive_typeCount: "additive (\<lambda>a. typeAt ts_count (byType a) t)"
  by (simp add: additive_def mergePrefixV_def typeAt_mergeByType emptyTypeStats_def)

lemma additive_typeBytes: "additive (\<lambda>a. typeAt ts_estBytes (byType a) t)"
  by (simp add: additive_def mergePrefixV_def typeAt_mergeByType emptyTypeStats_def)

lemma sum_list_perm:
  fixes f :: "'b \<Rightarrow> 'a::comm_monoid_add"
  assumes "mset xs = mset ys"
  shows "(\<Sum>x\<leftarrow>xs. f x) = (\<Sum>x\<leftarrow>ys. f x)"
proof -
  have "sum_mset (mset (map f xs)) = sum_mset (mset (map f ys))" using assms by simp
  then show ?thesis by (simp only: sum_mset_sum_list)
qed

lemma sumOf_perm:
  assumes "additive f" and "mset rs = mset rs'"
  shows "sumOf f (prefixes (mergeValues rs)) p = sumOf f (prefixes (mergeValues rs')) p"
  by (simp only: sumOf_mergeValues [OF assms(1)] sum_list_perm [OF assms(2)])

lemma sumOf_assoc:
  assumes "additive f"
  shows "sumOf f (prefixes (mergeValues [mergeValues [a, b], c])) p
       = sumOf f (prefixes (mergeValues [a, mergeValues [b, c]])) p"
  by (simp add: sumOf_mergeValues [OF assms] add.assoc)

lemma totals_perm:
  assumes "mset rs = mset rs'"
  shows "totals (mergeValues rs) p l t = totals (mergeValues rs') p l t"
  by (simp only: totals_def sumOf_mergeValues [OF additive_count]
      sumOf_mergeValues [OF additive_estBytes] sumOf_mergeValues [OF additive_ttl]
      sumOf_mergeValues [OF additive_idle] sumOf_mergeValues [OF additive_typeCount]
      sumOf_mergeValues [OF additive_typeBytes] sum_list_perm [OF assms])

lemma totals_assoc:
  "totals (mergeValues [mergeValues [a, b], c]) p l t
     = totals (mergeValues [a, mergeValues [b, c]]) p l t"
  by (simp add: totals_def sumOf_mergeValues [OF additive_count]
      sumOf_mergeValues [OF additive_estBytes] sumOf_mergeValues [OF additive_ttl]
      sumOf_mergeValues [OF additive_idle] sumOf_mergeValues [OF additive_typeCount]
      sumOf_mergeValues [OF additive_typeBytes] add.assoc)

lemma dget_mergeTopN:
  "distinct (map fst tm) \<Longrightarrow>
     dget (mergeTopN mt tm) t =
       (case dget tm t of
          None \<Rightarrow> dget mt t
        | Some l \<Rightarrow> Some (case dget mt t of None \<Rightarrow> l | Some existing \<Rightarrow> insertAll existing l 20))"
proof (induction tm arbitrary: mt)
  case Nil
  then show ?case by simp
next
  case (Cons e tm)
  obtain k l where e: "e = (k, l)" by (cases e)
  from Cons.prems have dist: "distinct (map fst tm)" and fresh: "k \<notin> fst ` set tm"
    by (auto simp: e)
  from fresh have none: "dget tm k = None" by (simp add: dget_None_iff)
  define mt' where "mt' = (case dget mt k of None \<Rightarrow> dset k l mt
                           | Some existing \<Rightarrow> dset k (insertAll existing l 20) mt)"
  have mt: "dget mt' t = (if t = k then Some (case dget mt k of None \<Rightarrow> l | Some existing \<Rightarrow> insertAll existing l 20) else dget mt t)"
    unfolding mt'_def by (cases "dget mt k") (simp_all add: dget_dset)
  have "dget (mergeTopN mt (e # tm)) t = dget (mergeTopN mt' tm) t" by (simp add: e mt'_def)
  also have "\<dots> = (case dget tm t of None \<Rightarrow> dget mt' t
        | Some l' \<Rightarrow> Some (case dget mt' t of None \<Rightarrow> l' | Some existing \<Rightarrow> insertAll existing l' 20))"
    by (rule Cons.IH [OF dist])
  also have "\<dots> = (case dget (e # tm) t of None \<Rightarrow> dget mt t
        | Some l' \<Rightarrow> Some (case dget mt t of None \<Rightarrow> l' | Some existing \<Rightarrow> insertAll existing l' 20))"
  proof (cases "t = k")
    case True
    with none mt show ?thesis by (simp add: e)
  next
    case False
    with mt show ?thesis by (simp add: e cong: option.case_cong)
  qed
  finally show ?case .
qed

lemma topN_merge_pair:
  assumes "distinct (map fst (r_topN a))" and "distinct (map fst (r_topN b))"
  shows "dget (r_topN (snd (mergeAggregations h [a, b]))) t =
       (case dget (r_topN b) t of
          None \<Rightarrow> dget (r_topN a) t
        | Some lb \<Rightarrow> Some (case dget (r_topN a) t of None \<Rightarrow> lb | Some la \<Rightarrow> insertAll la lb 20))"
proof -
  obtain h' mp mt where s: "mergeLoop (h, [], []) [a, b] = (h', mp, mt)"
    by (cases "mergeLoop (h, [], []) [a, b]")
  have "mergeTopN [] (r_topN a) = r_topN a"
    using mergeTopN_fresh [of "[]" "r_topN a"] assms(1) by simp
  moreover have "snd (snd (mergeLoop (h, [], []) [a, b])) = foldl mergeTopN [] (map r_topN [a, b])"
    by (rule mergeLoop_topN)
  ultimately have "r_topN (snd (mergeAggregations h [a, b])) = mergeTopN (r_topN a) (r_topN b)"
    using s by (simp add: mergeAggregations_def)
  then show ?thesis by (simp add: dget_mergeTopN [OF assms(2)])
qed

subsection \<open>A merge is itself well formed\<close>

lemma mergeTopN_distinct: "distinct (map fst mt) \<Longrightarrow> distinct (map fst (mergeTopN mt tm))"
proof (induction tm arbitrary: mt)
  case Nil
  then show ?case by simp
next
  case (Cons e tm)
  obtain t l where e: "e = (t, l)" by (cases e)
  have "distinct (map fst (case dget mt t of None \<Rightarrow> dset t l mt
                           | Some existing \<Rightarrow> dset t (insertAll existing l 20) mt))"
    using Cons.prems by (cases "dget mt t") (simp_all add: distinct_dset)
  from Cons.IH [OF this] show ?case by (simp add: e)
qed

lemma foldl_mergeTopN_distinct:
  "distinct (map fst mt) \<Longrightarrow> distinct (map fst (foldl mergeTopN mt tms))"
  by (induction tms arbitrary: mt) (simp_all add: mergeTopN_distinct)

lemma wellKeyedR_dset:
  assumes "wellKeyedR mp" and "r_prefix a = p"
  shows "wellKeyedR (dset p a mp)"
proof -
  have "\<forall>e \<in> set (dset p a mp). r_prefix (snd e) = fst e"
  proof
    fix e assume "e \<in> set (dset p a mp)"
    then have "e = (p, a) \<or> e \<in> set mp" using set_dset_subset [of p a mp] by blast
    then show "r_prefix (snd e) = fst e" using assms by (auto simp: wellKeyedR_def)
  qed
  then show ?thesis using assms(1) by (simp add: wellKeyedR_def distinct_dset)
qed

lemma wellKeyedR_get:
  assumes "wellKeyedR mp" and "dget mp p = Some a"
  shows "r_prefix a = p"
proof -
  from assms(2) have "(p, a) \<in> set mp" by (rule dget_in_set)
  with assms(1) show ?thesis by (fastforce simp: wellKeyedR_def)
qed

lemma prefix_mergePrefix: "r_prefix (snd (mergePrefix h e x)) = r_prefix e"
  by (simp add: mergePrefix_def Let_def)

lemma mergePrefixes_wellKeyedR: "wellKeyedR mp \<Longrightarrow> wellKeyedR (snd (mergePrefixes h mp ps))"
proof (induction ps arbitrary: h mp)
  case Nil
  then show ?case by simp
next
  case (Cons x ps)
  show ?case
  proof (cases "dget mp (r_prefix x)")
    case None
    have "wellKeyedR (dset (r_prefix x) x mp)" using Cons.prems by (simp add: wellKeyedR_dset)
    from Cons.IH [OF this] None show ?thesis by simp
  next
    case (Some existing)
    obtain h' merged where m: "mergePrefix h existing x = (h', merged)"
      by (cases "mergePrefix h existing x")
    from Cons.prems Some have "r_prefix existing = r_prefix x" by (rule wellKeyedR_get)
    with prefix_mergePrefix [of h existing x] m have "r_prefix merged = r_prefix x" by simp
    with Cons.prems have "wellKeyedR (dset (r_prefix x) merged mp)" by (simp add: wellKeyedR_dset)
    from Cons.IH [OF this] Some m show ?thesis by simp
  qed
qed

lemma mergeLoop_wellKeyedR:
  "wellKeyedR mp \<Longrightarrow> wellKeyedR (fst (snd (mergeLoop (h, mp, mt) rs)))"
proof (induction rs arbitrary: h mp mt)
  case Nil
  then show ?case by simp
next
  case (Cons r rs)
  obtain h' mp' where m: "mergePrefixes h mp (r_prefixes r) = (h', mp')"
    by (cases "mergePrefixes h mp (r_prefixes r)")
  from mergePrefixes_wellKeyedR [OF Cons.prems, of h "r_prefixes r"] m have "wellKeyedR mp'"
    by simp
  from Cons.IH [OF this] m show ?case by simp
qed

lemma merge_of_merge:
  "mergeAggregations (fst (mergeAggregations h rs)) [snd (mergeAggregations h rs)]
     = mergeAggregations h rs"
proof -
  obtain h' mp mt where s: "mergeLoop (h, [], []) rs = (h', mp, mt)"
    by (cases "mergeLoop (h, [], []) rs")
  have "wellKeyedR (fst (snd (mergeLoop (h, [], []) rs)))"
    by (rule mergeLoop_wellKeyedR) (simp add: wellKeyedR_def)
  with s have wk: "wellKeyedR mp" by simp
  have "distinct (map fst (snd (snd (mergeLoop (h, [], []) rs))))"
    unfolding mergeLoop_topN by (rule foldl_mergeTopN_distinct) simp
  with s have dt: "distinct (map fst mt)" by simp
  have x: "mergeAggregations h rs = (h', \<lparr>r_prefixes = sortRefs (map snd mp), r_topN = mt\<rparr>)"
    by (simp add: mergeAggregations_def s)
  have "map r_prefix (map snd mp) = map fst mp" using wk by (simp add: wellKeyedR_def)
  moreover have "distinct (map fst mp)" using wk by (simp add: wellKeyedR_def)
  ultimately have "distinct (map r_prefix (map snd mp))" by (simp only:)
  then have d: "distinct (map r_prefix (sortRefs (map snd mp)))" by (rule distinct_map_sortRefs)
  have "mergeAggregations h' [\<lparr>r_prefixes = sortRefs (map snd mp), r_topN = mt\<rparr>]
      = (h', \<lparr>r_prefixes = sortRefs (map snd mp), r_topN = mt\<rparr>)"
    by (rule merge_single) (simp_all add: d dt sortRefs_idem)
  then show ?thesis by (simp add: x)
qed

lemma merge_of_aggregate:
  assumes "readResult h x = aggregateKeys ks config delimiter"
  shows "mergeAggregations h [x] = (h, x)"
proof -
  obtain pm tm where s: "aggLoop ([], []) config delimiter ks = (pm, tm)" by fastforce
  have "wellKeyed (fst (aggLoop ([], []) config delimiter ks))
      \<and> distinct (map fst (snd (aggLoop ([], []) config delimiter ks)))"
    by (rule aggLoop_wellKeyed) (simp_all add: wellKeyed_def)
  with s have wk: "wellKeyed pm" and dt: "distinct (map fst tm)" by simp_all
  have agg: "aggregateKeys ks config delimiter = \<lparr>prefixes = sortPrefixes (map snd pm), topN = tm\<rparr>"
    by (simp add: aggregateKeys_def s)
  from assms agg have p: "map (readPrefix h) (r_prefixes x) = sortPrefixes (map snd pm)"
    and t: "r_topN x = tm" by (simp_all add: readResult_def)
  have "map prefix (map (readPrefix h) (r_prefixes x)) = map r_prefix (r_prefixes x)"
    by (simp add: readPrefix_def)
  with p have names: "map r_prefix (r_prefixes x) = map prefix (sortPrefixes (map snd pm))"
    by simp
  have "map (\<lambda>a. - pa_estBytes a) (map (readPrefix h) (r_prefixes x))
      = map (\<lambda>a. - r_estBytes a) (r_prefixes x)"
    by (simp add: readPrefix_def)
  with p have bytes: "map (\<lambda>a. - r_estBytes a) (r_prefixes x)
      = map (\<lambda>a. - pa_estBytes a) (sortPrefixes (map snd pm))"
    by simp
  have "map prefix (map snd pm) = map fst pm" using wk by (simp add: wellKeyed_def)
  moreover have "distinct (map fst pm)" using wk by (simp add: wellKeyed_def)
  ultimately have "distinct (map prefix (map snd pm))" by (simp only:)
  then have "distinct (map prefix (sortPrefixes (map snd pm)))" by (rule distinct_map_sortPrefixes)
  with names have d: "distinct (map r_prefix (r_prefixes x))" by simp
  have "sorted (map (\<lambda>a. - pa_estBytes a) (sortPrefixes (map snd pm)))"
    by (simp add: sortPrefixes_def)
  with bytes have "sorted (map (\<lambda>a. - r_estBytes a) (r_prefixes x))" by simp
  then have "sortRefs (r_prefixes x) = r_prefixes x"
    unfolding sortRefs_def by (rule sort_key_id_if_sorted)
  with d dt t show ?thesis by (intro merge_single) simp_all
qed

subsection \<open>The merge of separate objects\<close>

lemma dget_readMap: "dget (readMap h mp) k = map_option (readPrefix h) (dget mp k)"
  by (induction mp) (auto simp: readMap_def)

lemma readMap_dset: "readMap h (dset k v mp) = dset k (readPrefix h v) (readMap h mp)"
  by (induction mp) (auto simp: readMap_def)

lemma separatePrefixes_drop: "separatePrefixes (xs @ p # ys) \<Longrightarrow> separatePrefixes (xs @ ys)"
  by (auto simp: separatePrefixes_def)

lemma separatePrefixes_left: "separatePrefixes (xs @ ys) \<Longrightarrow> separatePrefixes xs"
  by (auto simp: separatePrefixes_def)

lemma separatePrefixes_self:
  "separatePrefixes xs \<Longrightarrow> e \<in> set xs \<Longrightarrow> r_ttlHist e \<noteq> r_idleHist e"
  by (auto simp: separatePrefixes_def)

lemma separatePrefixes_apart:
  assumes "separatePrefixes xs" and "e \<in> set xs" and "q \<in> set xs" and "q \<noteq> e"
  shows "r_ttlHist q \<noteq> r_ttlHist e \<and> r_ttlHist q \<noteq> r_idleHist e
    \<and> r_idleHist q \<noteq> r_ttlHist e \<and> r_idleHist q \<noteq> r_idleHist e \<and> r_byType q \<noteq> r_byType e"
proof -
  from assms(1) have ttl: "inj_on r_ttlHist (set xs)" and idle: "inj_on r_idleHist (set xs)"
    and types: "inj_on r_byType (set xs)"
    and cross: "r_ttlHist ` set xs \<inter> r_idleHist ` set xs = {}"
    by (simp_all add: separatePrefixes_def distinct_map)
  have "r_ttlHist q \<noteq> r_ttlHist e" using ttl assms(2-4) by (meson inj_onD)
  moreover have "r_idleHist q \<noteq> r_idleHist e" using idle assms(2-4) by (meson inj_onD)
  moreover have "r_byType q \<noteq> r_byType e" using types assms(2-4) by (meson inj_onD)
  moreover have "r_ttlHist q \<noteq> r_idleHist e" using cross assms(2,3) by blast
  moreover have "r_idleHist q \<noteq> r_ttlHist e" using cross assms(2,3) by blast
  ultimately show ?thesis by blast
qed

lemma separatePrefixes_across:
  assumes "separatePrefixes (xs @ ys)" and "e \<in> set xs" and "q \<in> set ys"
  shows "r_ttlHist q \<noteq> r_ttlHist e \<and> r_ttlHist q \<noteq> r_idleHist e
    \<and> r_idleHist q \<noteq> r_ttlHist e \<and> r_idleHist q \<noteq> r_idleHist e \<and> r_byType q \<noteq> r_byType e"
  using assms by (auto simp: separatePrefixes_def)

lemma separatePrefixes_mset:
  assumes "mset xs = mset ys"
  shows "separatePrefixes xs = separatePrefixes ys"
proof -
  have "mset (map r_ttlHist xs @ map r_idleHist xs) = mset (map r_ttlHist ys @ map r_idleHist ys)"
    using assms by simp
  then have "distinct (map r_ttlHist xs @ map r_idleHist xs)
      = distinct (map r_ttlHist ys @ map r_idleHist ys)"
    by (rule mset_eq_imp_distinct_iff)
  moreover have "mset (map r_byType xs) = mset (map r_byType ys)" using assms by simp
  then have "distinct (map r_byType xs) = distinct (map r_byType ys)"
    by (rule mset_eq_imp_distinct_iff)
  ultimately show ?thesis by (simp only: separatePrefixes_def)
qed

lemma mergePrefix_read:
  assumes "r_ttlHist e \<noteq> r_idleHist e" and "r_idleHist p \<noteq> r_ttlHist e"
  shows "readPrefix (fst (mergePrefix h e p)) (snd (mergePrefix h e p))
       = mergePrefixV (readPrefix h e) (readPrefix h p)"
  using assms
  by (simp add: mergePrefix_def Let_def readPrefix_def mergePrefixV_def addHist_def addByType_def)

lemma mergePrefix_frame:
  assumes "r_ttlHist q \<noteq> r_ttlHist e \<and> r_ttlHist q \<noteq> r_idleHist e
    \<and> r_idleHist q \<noteq> r_ttlHist e \<and> r_idleHist q \<noteq> r_idleHist e \<and> r_byType q \<noteq> r_byType e"
  shows "readPrefix (fst (mergePrefix h e p)) q = readPrefix h q"
  using assms
  by (simp add: mergePrefix_def Let_def readPrefix_def addHist_def addByType_def)

lemma mergePrefix_addresses:
  "r_ttlHist (snd (mergePrefix h e p)) = r_ttlHist e"
  "r_idleHist (snd (mergePrefix h e p)) = r_idleHist e"
  "r_byType (snd (mergePrefix h e p)) = r_byType e"
  by (simp_all add: mergePrefix_def Let_def)

lemma dset_same_field:
  "dget m k = Some v \<Longrightarrow> f v' = f v \<Longrightarrow> map f (map snd (dset k v' m)) = map f (map snd m)"
  by (induction m) (auto split: if_splits)

lemma dset_read_cong:
  assumes "dget m k = Some e" and "distinct (map snd m)"
    and "\<forall>x \<in> set m. snd x \<noteq> e \<longrightarrow> f (snd x) = g (snd x)"
  shows "dset k v (map (\<lambda>x. (fst x, f (snd x))) m) = dset k v (map (\<lambda>x. (fst x, g (snd x))) m)"
  using assms
proof (induction m)
  case Nil
  then show ?case by simp
next
  case (Cons x m)
  obtain k' v' where x: "x = (k', v')" by (cases x)
  show ?case
  proof (cases "k' = k")
    case True
    with Cons.prems(1) x have "v' = e" by simp
    with Cons.prems(2) x have "\<forall>y \<in> set m. snd y \<noteq> e" by auto
    with Cons.prems(3) have "map (\<lambda>x. (fst x, f (snd x))) m = map (\<lambda>x. (fst x, g (snd x))) m"
      by simp
    with True x show ?thesis by simp
  next
    case False
    with Cons.prems(1) x have get: "dget m k = Some e" by simp
    then have "(k, e) \<in> set m" by (rule dget_in_set)
    then have "e \<in> snd ` set m" by force
    with Cons.prems(2) x have "v' \<noteq> e" by auto
    with Cons.prems(3) x have head: "f v' = g v'" by simp
    from Cons.prems(2) have "distinct (map snd m)" by simp
    from Cons.IH [OF get this] Cons.prems(3) head False x show ?thesis by simp
  qed
qed

lemma mergePrefixes_refines:
  "mergePrefixes h mp ps = (h', mp') \<Longrightarrow> separatePrefixes (map snd mp @ ps @ qs) \<Longrightarrow>
     readMap h' mp' = mergePrefixesV (readMap h mp) (map (readPrefix h) ps)
     \<and> (\<forall>q \<in> set qs. readPrefix h' q = readPrefix h q)
     \<and> separatePrefixes (map snd mp' @ qs)"
proof (induction ps arbitrary: h mp)
  case Nil
  then show ?case by simp
next
  case (Cons p ps)
  let ?k = "r_prefix p"
  have pk: "prefix (readPrefix h p) = ?k" by (simp add: readPrefix_def)
  show ?case
  proof (cases "dget mp ?k")
    case None
    with Cons.prems(1) have run: "mergePrefixes h (dset ?k p mp) ps = (h', mp')" by simp
    have app: "dset ?k p mp = mp @ [(?k, p)]" using None by (rule dset_append)
    have sep: "separatePrefixes (map snd (dset ?k p mp) @ ps @ qs)"
      using Cons.prems(2) by (simp add: app)
    have "dget (readMap h mp) ?k = None" using None by (simp add: dget_readMap)
    then have "mergePrefixesV (readMap h mp) (map (readPrefix h) (p # ps))
        = mergePrefixesV (readMap h (dset ?k p mp)) (map (readPrefix h) ps)"
      by (simp add: pk readMap_dset)
    with Cons.IH [OF run sep] show ?thesis by simp
  next
    case (Some e)
    obtain h1 merged where m: "mergePrefix h e p = (h1, merged)" by (cases "mergePrefix h e p")
    with Some Cons.prems(1) have run: "mergePrefixes h1 (dset ?k merged mp) ps = (h', mp')"
      by simp
    from Some have "(?k, e) \<in> set mp" by (rule dget_in_set)
    then have e_in: "e \<in> set (map snd mp)" by force
    have sepAll: "separatePrefixes (map snd mp @ p # ps @ qs)" using Cons.prems(2) by simp
    have sepMp: "separatePrefixes (map snd mp)" using sepAll by (rule separatePrefixes_left)
    have e_self: "r_ttlHist e \<noteq> r_idleHist e" using sepMp e_in by (rule separatePrefixes_self)
    have p_far: "r_idleHist p \<noteq> r_ttlHist e"
      using separatePrefixes_across [OF sepAll e_in, of p] by simp
    have merged_read: "readPrefix h1 merged = mergePrefixV (readPrefix h e) (readPrefix h p)"
      using mergePrefix_read [OF e_self p_far, of h] m by simp
    have frame_mp: "\<forall>x \<in> set mp. snd x \<noteq> e \<longrightarrow> readPrefix h1 (snd x) = readPrefix h (snd x)"
    proof (intro ballI impI)
      fix x assume "x \<in> set mp" and ne: "snd x \<noteq> e"
      then have "snd x \<in> set (map snd mp)" by simp
      from separatePrefixes_apart [OF sepMp e_in this ne] mergePrefix_frame [of "snd x" e h p] m
      show "readPrefix h1 (snd x) = readPrefix h (snd x)" by simp
    qed
    have frame_rest: "\<forall>q \<in> set (ps @ qs). readPrefix h1 q = readPrefix h q"
    proof
      fix q assume "q \<in> set (ps @ qs)"
      then have "q \<in> set (p # ps @ qs)" by simp
      from separatePrefixes_across [OF sepAll e_in this] mergePrefix_frame [of q e h p] m
      show "readPrefix h1 q = readPrefix h q" by simp
    qed
    from sepMp have "distinct (map r_byType (map snd mp))"
      unfolding separatePrefixes_def by (rule conjunct2)
    then have dist: "distinct (map snd mp)" using distinct_map by blast
    have "readMap h1 (dset ?k merged mp) = dset ?k (readPrefix h1 merged) (readMap h1 mp)"
      by (rule readMap_dset)
    also have "\<dots> = dset ?k (readPrefix h1 merged) (readMap h mp)"
      unfolding readMap_def by (rule dset_read_cong [OF Some dist frame_mp])
    finally have map1: "readMap h1 (dset ?k merged mp)
        = dset ?k (mergePrefixV (readPrefix h e) (readPrefix h p)) (readMap h mp)"
      using merged_read by simp
    have addr: "r_ttlHist merged = r_ttlHist e" "r_idleHist merged = r_idleHist e"
      "r_byType merged = r_byType e"
      using mergePrefix_addresses [of h e p] m by simp_all
    have same: "map r_ttlHist (map snd (dset ?k merged mp)) = map r_ttlHist (map snd mp)"
      "map r_idleHist (map snd (dset ?k merged mp)) = map r_idleHist (map snd mp)"
      "map r_byType (map snd (dset ?k merged mp)) = map r_byType (map snd mp)"
      using Some addr by (simp_all only: dset_same_field)
    have "separatePrefixes (map snd mp @ ps @ qs)"
      using sepAll by (rule separatePrefixes_drop)
    then have sep: "separatePrefixes (map snd (dset ?k merged mp) @ ps @ qs)"
      by (simp only: separatePrefixes_def map_append same)
    note ih = Cons.IH [OF run sep]
    have rest: "map (readPrefix h1) ps = map (readPrefix h) ps" using frame_rest by simp
    have "dget (readMap h mp) ?k = Some (readPrefix h e)" using Some by (simp add: dget_readMap)
    then have "mergePrefixesV (readMap h mp) (map (readPrefix h) (p # ps))
        = mergePrefixesV (readMap h1 (dset ?k merged mp)) (map (readPrefix h1) ps)"
      by (simp add: pk map1 rest)
    with ih frame_rest show ?thesis by simp
  qed
qed

lemma mergeLoop_refines:
  "mergeLoop (h, mp, mt) rs = (h', mp', mt') \<Longrightarrow>
   separatePrefixes (map snd mp @ concat (map r_prefixes rs) @ qs) \<Longrightarrow>
     mergeLoopV (readMap h mp, mt) (map (readResult h) rs) = (readMap h' mp', mt')
     \<and> (\<forall>q \<in> set qs. readPrefix h' q = readPrefix h q)
     \<and> separatePrefixes (map snd mp' @ qs)"
proof (induction rs arbitrary: h mp mt)
  case Nil
  then show ?case by simp
next
  case (Cons r rs)
  obtain h1 mp1 where m: "mergePrefixes h mp (r_prefixes r) = (h1, mp1)"
    by (cases "mergePrefixes h mp (r_prefixes r)")
  with Cons.prems(1) have run: "mergeLoop (h1, mp1, mergeTopN mt (r_topN r)) rs = (h', mp', mt')"
    by simp
  have "separatePrefixes (map snd mp @ r_prefixes r @ (concat (map r_prefixes rs) @ qs))"
    using Cons.prems(2) by simp
  from mergePrefixes_refines [OF m this]
  have first: "readMap h1 mp1 = mergePrefixesV (readMap h mp) (map (readPrefix h) (r_prefixes r))"
    and frame: "\<forall>q \<in> set (concat (map r_prefixes rs) @ qs). readPrefix h1 q = readPrefix h q"
    and sep: "separatePrefixes (map snd mp1 @ concat (map r_prefixes rs) @ qs)"
    by simp_all
  note ih = Cons.IH [OF run sep]
  have "readResult h1 x = readResult h x" if "x \<in> set rs" for x
  proof -
    have "\<forall>q \<in> set (r_prefixes x). readPrefix h1 q = readPrefix h q"
      using frame that by auto
    then show ?thesis by (simp add: readResult_def)
  qed
  then have rest: "map (readResult h1) rs = map (readResult h) rs" by simp
  have "mergeLoopV (readMap h mp, mt) (map (readResult h) (r # rs))
      = mergeLoopV (readMap h1 mp1, mergeTopN mt (r_topN r)) (map (readResult h1) rs)"
    by (simp add: first rest readResult_def)
  with ih frame show ?case by simp
qed

lemma map_insort_key:
  "(\<And>y. f (g y) = f' y) \<Longrightarrow> map g (insort_key f' x ys) = insort_key f (g x) (map g ys)"
  by (induction ys) simp_all

lemma map_sort_key:
  assumes "\<And>y. f (g y) = f' y"
  shows "map g (sort_key f' xs) = sort_key f (map g xs)"
proof (induction xs)
  case Nil
  then show ?case by simp
next
  case (Cons x xs)
  have "map g (insort_key f' x (sort_key f' xs)) = insort_key f (g x) (map g (sort_key f' xs))"
    using assms by (rule map_insort_key)
  with Cons show ?case by simp
qed

lemma readPrefix_sortRefs: "map (readPrefix h) (sortRefs xs) = sortPrefixes (map (readPrefix h) xs)"
  unfolding sortRefs_def sortPrefixes_def
  by (rule map_sort_key) (simp add: readPrefix_def)

lemma mergeAggregations_refines:
  assumes "separatePrefixes (concat (map r_prefixes rs) @ qs)"
  shows "resultValue (mergeAggregations h rs) = mergeValues (map (readResult h) rs)
    \<and> (\<forall>q \<in> set qs. readPrefix (fst (mergeAggregations h rs)) q = readPrefix h q)
    \<and> separatePrefixes (r_prefixes (snd (mergeAggregations h rs)) @ qs)"
proof -
  obtain h' mp mt where s: "mergeLoop (h, [], []) rs = (h', mp, mt)"
    by (cases "mergeLoop (h, [], []) rs")
  have "separatePrefixes (map snd [] @ concat (map r_prefixes rs) @ qs)" using assms by simp
  from mergeLoop_refines [OF s this]
  have v: "mergeLoopV ([], []) (map (readResult h) rs) = (readMap h' mp, mt)"
    and frame: "\<forall>q \<in> set qs. readPrefix h' q = readPrefix h q"
    and sep: "separatePrefixes (map snd mp @ qs)"
    by (simp_all add: readMap_def)
  have x: "mergeAggregations h rs = (h', \<lparr>r_prefixes = sortRefs (map snd mp), r_topN = mt\<rparr>)"
    by (simp add: mergeAggregations_def s)
  have "map snd (readMap h' mp) = map (readPrefix h') (map snd mp)"
    by (simp add: readMap_def)
  then have "resultValue (mergeAggregations h rs) = mergeValues (map (readResult h) rs)"
    by (simp add: x resultValue_def readResult_def mergeValues_def v readPrefix_sortRefs)
  moreover have "mset (sortRefs (map snd mp) @ qs) = mset (map snd mp @ qs)"
    by (simp add: sortRefs_def)
  then have "separatePrefixes (sortRefs (map snd mp) @ qs)"
    using sep separatePrefixes_mset by blast
  ultimately show ?thesis using frame by (simp add: x)
qed

lemma mset_concat_perm:
  assumes "mset rs = mset rs'"
  shows "mset (concat (map f rs)) = mset (concat (map f rs'))"
proof -
  have "(\<Sum>r\<leftarrow>rs. mset (f r)) = (\<Sum>r\<leftarrow>rs'. mset (f r))" using assms by (rule sum_list_perm)
  then show ?thesis by (simp add: mset_concat comp_def)
qed

lemma separate_perm: "mset rs = mset rs' \<Longrightarrow> separate rs = separate rs'"
  unfolding separate_def by (intro separatePrefixes_mset mset_concat_perm)

lemma merge_value:
  assumes "separate rs"
  shows "resultValue (mergeAggregations h rs) = mergeValues (map (readResult h) rs)"
  using mergeAggregations_refines [of rs "[]" h] assms by (simp add: separate_def)

lemma merge_totals_perm:
  assumes "separate rs" and "mset rs = mset rs'"
  shows "totals (resultValue (mergeAggregations h rs)) p l t
       = totals (resultValue (mergeAggregations h rs')) p l t"
proof -
  from assms have "separate rs'" using separate_perm by blast
  moreover have "mset (map (readResult h) rs) = mset (map (readResult h) rs')"
    using assms(2) by simp
  ultimately show ?thesis
    using assms(1) by (simp add: merge_value totals_perm)
qed

lemma merge_left_value:
  assumes "separate [a, b, c]"
  shows "resultValue (mergeLeft h a b c)
       = mergeValues [mergeValues [readResult h a, readResult h b], readResult h c]"
proof -
  obtain h1 ab where m: "mergeAggregations h [a, b] = (h1, ab)"
    by (cases "mergeAggregations h [a, b]")
  have "separatePrefixes (concat (map r_prefixes [a, b]) @ r_prefixes c)"
    using assms by (simp add: separate_def)
  from mergeAggregations_refines [OF this, of h] m
  have v: "readResult h1 ab = mergeValues [readResult h a, readResult h b]"
    and frame: "\<forall>q \<in> set (r_prefixes c). readPrefix h1 q = readPrefix h q"
    and sep: "separatePrefixes (r_prefixes ab @ r_prefixes c)"
    by (simp_all add: resultValue_def)
  from frame have c: "readResult h1 c = readResult h c" by (simp add: readResult_def)
  from sep have "separate [ab, c]" by (simp add: separate_def)
  then have "resultValue (mergeAggregations h1 [ab, c])
      = mergeValues [readResult h1 ab, readResult h1 c]"
    by (simp add: merge_value)
  then show ?thesis by (simp add: mergeLeft_def m v c)
qed

lemma merge_right_value:
  assumes "separate [a, b, c]"
  shows "resultValue (mergeRight h a b c)
       = mergeValues [readResult h a, mergeValues [readResult h b, readResult h c]]"
proof -
  obtain h1 bc where m: "mergeAggregations h [b, c] = (h1, bc)"
    by (cases "mergeAggregations h [b, c]")
  have "mset (concat (map r_prefixes [b, c]) @ r_prefixes a) = mset (concat (map r_prefixes [a, b, c]))"
    by simp
  then have "separatePrefixes (concat (map r_prefixes [b, c]) @ r_prefixes a)"
    using assms separatePrefixes_mset unfolding separate_def by blast
  from mergeAggregations_refines [OF this, of h] m
  have v: "readResult h1 bc = mergeValues [readResult h b, readResult h c]"
    and frame: "\<forall>q \<in> set (r_prefixes a). readPrefix h1 q = readPrefix h q"
    and sep: "separatePrefixes (r_prefixes bc @ r_prefixes a)"
    by (simp_all add: resultValue_def)
  from frame have a: "readResult h1 a = readResult h a" by (simp add: readResult_def)
  have "mset (concat (map r_prefixes [a, bc])) = mset (r_prefixes bc @ r_prefixes a)" by simp
  then have "separate [a, bc]"
    using sep separatePrefixes_mset unfolding separate_def by blast
  then have "resultValue (mergeAggregations h1 [a, bc])
      = mergeValues [readResult h1 a, readResult h1 bc]"
    by (simp add: merge_value)
  then show ?thesis by (simp add: mergeRight_def m v a)
qed

lemma merge_totals_assoc:
  assumes "separate [a, b, c]"
  shows "totals (resultValue (mergeLeft h a b c)) p l t
       = totals (resultValue (mergeRight h a b c)) p l t"
  by (simp only: merge_left_value [OF assms] merge_right_value [OF assms] totals_assoc)

section \<open>Properties of the specification\<close>

subsection \<open>C1: the sample limit\<close>





subsection \<open>C2: invariants of a prefix aggregate\<close>

text \<open>
  Claim C2. For every list of key metadata and every configuration, each prefix aggregate
  that \<open>aggregateKeys\<close> produces satisfies: the per-type counts add up to \<open>count\<close>, the TTL
  histogram adds up to \<open>count\<close>, and the idle histogram adds up to at most \<open>count\<close>.
\<close>

theorem aggregateKeys_invariants:
  "\<forall>a \<in> set (prefixes (aggregateKeys ks config delimiter)).
     typeTotal (byType a) = count a \<and> histTotal (ttlHist a) = count a \<and> histTotal (idleHist a) \<le> count a"
proof -
  obtain pm tm where s: "aggLoop ([], []) config delimiter ks = (pm, tm)" by fastforce
  have "\<forall>e \<in> set (fst (aggLoop ([], []) config delimiter ks)). aggInvariant (snd e)"
    by (rule aggLoop_invariant) simp
  with s show ?thesis by (auto simp: aggregateKeys_def sortPrefixes_def aggInvariant_def)
qed

theorem aggregateKeys_invariants_witness:
  "\<exists>a. a \<in> set (prefixes (aggregateKeys scenarioKeys scenarioConfig '':''))
     \<and> typeTotal (byType a) = count a \<and> histTotal (ttlHist a) = count a
     \<and> histTotal (idleHist a) \<le> count a"
proof -
  have "prefixes (aggregateKeys scenarioKeys scenarioConfig '':'') \<noteq> []" by code_simp
  then have "hd (prefixes (aggregateKeys scenarioKeys scenarioConfig '':''))
      \<in> set (prefixes (aggregateKeys scenarioKeys scenarioConfig '':''))"
    by (rule hd_in_set)
  with aggregateKeys_invariants [of scenarioKeys scenarioConfig "'':''"] show ?thesis by blast
qed

subsection \<open>C3: merging a single partial result\<close>

text \<open>
  Claim C3. Merging the list that holds a single partial aggregation result gives that
  result back: the object returned has the same prefixes in the same order, referring to
  the same histograms and by-type records, and the same top-N lists, and no object is
  written to. A partial result is an object that holds what \<open>aggregateKeys\<close> returns for
  a shard, or the object an earlier merge returned.
\<close>

theorem merge_single_identity:
  "(readResult h x = aggregateKeys ks config delimiter \<longrightarrow> mergeAggregations h [x] = (h, x))
   \<and> mergeAggregations (fst (mergeAggregations h rs)) [snd (mergeAggregations h rs)]
       = mergeAggregations h rs"
  using merge_of_aggregate [of h x ks config delimiter] merge_of_merge [of h rs] by blast

theorem merge_single_identity_witness:
  "readResult scenarioHeap scenarioRef = aggregateKeys scenarioKeys scenarioConfig '':''
   \<and> mergeAggregations scenarioHeap [scenarioRef] = (scenarioHeap, scenarioRef)
   \<and> resultValue (mergeAggregations scenarioHeap [scenarioRef])
       = aggregateKeys scenarioKeys scenarioConfig '':''
   \<and> mergeAggregations (fst (mergeAggregations partsHeap [refA, refB]))
        [snd (mergeAggregations partsHeap [refA, refB])]
       = mergeAggregations partsHeap [refA, refB]"
proof -
  have v: "readResult scenarioHeap scenarioRef = aggregateKeys scenarioKeys scenarioConfig '':''"
    by code_simp
  from merge_single_identity [where h = scenarioHeap and x = scenarioRef and ks = scenarioKeys
      and config = scenarioConfig and delimiter = "'':''" and rs = "[refA, refB]"] v
  have m: "mergeAggregations scenarioHeap [scenarioRef] = (scenarioHeap, scenarioRef)" by blast
  from merge_single_identity [where h = partsHeap and rs = "[refA, refB]"]
  have mm: "mergeAggregations (fst (mergeAggregations partsHeap [refA, refB]))
        [snd (mergeAggregations partsHeap [refA, refB])]
       = mergeAggregations partsHeap [refA, refB]" by blast
  from v m mm show ?thesis by (simp add: resultValue_def)
qed

subsection \<open>C4: associativity and commutativity of the merge\<close>

text \<open>
  Three partial results as separate objects: \<open>a\<close> holds prefix \<open>p\<close> without bytes, \<open>b\<close>
  holds \<open>q\<close> with 5 bytes and \<open>c\<close> holds \<open>p\<close> with 5 bytes.
\<close>

lemma merge_left_order:
  "map prefix (prefixes (resultValue (mergeLeft partsHeap refA refB refC))) = [''q'', ''p'']"
  by code_simp

lemma merge_right_order:
  "map prefix (prefixes (resultValue (mergeRight partsHeap refA refB refC))) = [''p'', ''q'']"
  by code_simp

lemma merge_forward_order:
  "map prefix (prefixes (resultValue (mergeAggregations partsHeap [refC, refB]))) = [''p'', ''q'']"
  by code_simp

lemma merge_backward_order:
  "map prefix (prefixes (resultValue (mergeAggregations partsHeap [refB, refC]))) = [''q'', ''p'']"
  by code_simp

lemma merge_again_totals:
  "totals (resultValue (mergeAggregations partsHeap [refC, refA])) ''p'' ''persistent'' ''string''
     = (2, 5, 2, 0, 2, 5)
   \<and> totals (resultValue (mergeThen partsHeap [refC, refA] [refA, refC])) ''p'' ''persistent'' ''string''
     = (2, 5, 3, 0, 3, 5)"
  by code_simp

lemma merge_shared_input:
  "totals (resultValue (mergeAggregations partsHeap [refC, refA, refC])) ''p'' ''persistent'' ''string''
     = (3, 10, 4, 0, 4, 10)
   \<and> \<not> separate [refC, refA, refC]"
  by code_simp

text \<open>
  Claim C4 says that \<open>mergeAggregations\<close> is associative and commutative with equal
  results. The results are not equal: prefixes with the same \<open>estBytes\<close> keep the order in
  which the inputs brought them. With the three separate objects above, merging \<open>a\<close> and
  \<open>b\<close> first lists \<open>q\<close> before \<open>p\<close>, merging \<open>b\<close> and \<open>c\<close> first lists \<open>p\<close> before \<open>q\<close>;
  and the merge of \<open>c\<close> and \<open>b\<close> lists \<open>p\<close> first, the merge of \<open>b\<close> and \<open>c\<close> lists \<open>q\<close>
  first. Nor are the numbers equal once an object is reached twice: a merge writes into
  the histograms and the by-type record of the first input that brings a prefix. So
  merging \<open>c\<close> and \<open>a\<close> and then, on the same objects, \<open>a\<close> and \<open>c\<close> counts 2 and then 3
  persistent keys under \<open>p\<close>; and merging \<open>c\<close>, \<open>a\<close> and \<open>c\<close> again in one call counts three
  keys under \<open>p\<close> and four persistent ones (lemma \<open>merge_shared_input\<close>).
\<close>

theorem merge_associativity_counterexample:
  "separate [refA, refB, refC]
   \<and> resultValue (mergeLeft partsHeap refA refB refC)
       \<noteq> resultValue (mergeRight partsHeap refA refB refC)
   \<and> resultValue (mergeAggregations partsHeap [refC, refB])
       \<noteq> resultValue (mergeAggregations partsHeap [refB, refC])
   \<and> totals (resultValue (mergeAggregations partsHeap [refC, refA])) ''p'' ''persistent'' ''string''
       \<noteq> totals (resultValue (mergeThen partsHeap [refC, refA] [refA, refC])) ''p''
            ''persistent'' ''string''"
proof (intro conjI)
  show "separate [refA, refB, refC]" by code_simp
  show "resultValue (mergeLeft partsHeap refA refB refC)
       \<noteq> resultValue (mergeRight partsHeap refA refB refC)"
  proof
    assume "resultValue (mergeLeft partsHeap refA refB refC)
       = resultValue (mergeRight partsHeap refA refB refC)"
    then have "map prefix (prefixes (resultValue (mergeLeft partsHeap refA refB refC)))
       = map prefix (prefixes (resultValue (mergeRight partsHeap refA refB refC)))"
      by simp
    then show False by (simp add: merge_left_order merge_right_order)
  qed
  show "resultValue (mergeAggregations partsHeap [refC, refB])
       \<noteq> resultValue (mergeAggregations partsHeap [refB, refC])"
  proof
    assume "resultValue (mergeAggregations partsHeap [refC, refB])
       = resultValue (mergeAggregations partsHeap [refB, refC])"
    then have "map prefix (prefixes (resultValue (mergeAggregations partsHeap [refC, refB])))
       = map prefix (prefixes (resultValue (mergeAggregations partsHeap [refB, refC])))"
      by simp
    then show False by (simp add: merge_forward_order merge_backward_order)
  qed
  show "totals (resultValue (mergeAggregations partsHeap [refC, refA])) ''p'' ''persistent'' ''string''
       \<noteq> totals (resultValue (mergeThen partsHeap [refC, refA] [refA, refC])) ''p''
            ''persistent'' ''string''"
    using merge_again_totals by simp
qed

text \<open>
  Claim C4, amended. Let the partial results be separate objects: no histogram object and
  no by-type record is reached twice among them. Then what a merged result says about
  each prefix does not depend on the grouping or the order of the inputs, each of the
  merges compared being made on the objects as they are before the other: for every
  prefix, label and type, the count, the bytes, the TTL and idle histogram counts and the
  by-type count and bytes of \<open>merge [merge [a, b], c]\<close> are those of
  \<open>merge [a, merge [b, c]]\<close>, and those of \<open>merge rs\<close> are those of the merge of any
  permutation of \<open>rs\<close>. The top-N list of a type is re-merged by the bounded insertion
  rule, with the fixed bound 20: the first list of the type is taken as it is and the keys
  of the later list are inserted one by one.
\<close>

theorem merge_totals:
  "(separate [a, b, c] \<longrightarrow>
      totals (resultValue (mergeLeft h a b c)) p l t
        = totals (resultValue (mergeRight h a b c)) p l t)
   \<and> (separate rs \<and> mset rs = mset rs' \<longrightarrow>
        totals (resultValue (mergeAggregations h rs)) p l t
          = totals (resultValue (mergeAggregations h rs')) p l t)
   \<and> (distinct (map fst (r_topN a)) \<and> distinct (map fst (r_topN b)) \<longrightarrow>
        dget (r_topN (snd (mergeAggregations h [a, b]))) t =
          (case dget (r_topN b) t of
             None \<Rightarrow> dget (r_topN a) t
           | Some lb \<Rightarrow>
               Some (case dget (r_topN a) t of None \<Rightarrow> lb | Some la \<Rightarrow> insertAll la lb 20)))"
  using merge_totals_assoc [of a b c h p l t] merge_totals_perm [of rs rs' h p l t]
    topN_merge_pair [of a b h t]
  by blast

theorem merge_totals_witness:
  "separate [refC, refB, refA] \<and> separate [refA, refB]
   \<and> mset [refA, refB] = mset [refB, refA]
   \<and> distinct (map fst (r_topN refC)) \<and> distinct (map fst (r_topN refB))
   \<and> totals (resultValue (mergeLeft partsHeap refC refB refA)) ''p'' ''persistent'' ''string''
      = totals (resultValue (mergeRight partsHeap refC refB refA)) ''p'' ''persistent'' ''string''
   \<and> totals (resultValue (mergeLeft partsHeap refC refB refA)) ''p'' ''persistent'' ''string''
      = (2, 5, 2, 0, 2, 5)
   \<and> totals (resultValue (mergeAggregations partsHeap [refA, refB])) ''p'' ''persistent'' ''string''
      = totals (resultValue (mergeAggregations partsHeap [refB, refA])) ''p'' ''persistent''
          ''string''
   \<and> dget (r_topN (snd (mergeAggregations partsHeap [refC, refB]))) ''string''
      = (case dget (r_topN refB) ''string'' of
           None \<Rightarrow> dget (r_topN refC) ''string''
         | Some lb \<Rightarrow>
             Some (case dget (r_topN refC) ''string'' of
                     None \<Rightarrow> lb | Some la \<Rightarrow> insertAll la lb 20))"
proof -
  have sep: "separate [refC, refB, refA] \<and> separate [refA, refB]" by code_simp
  have perm: "mset [refA, refB] = mset [refB, refA]" by simp
  have dist: "distinct (map fst (r_topN refC)) \<and> distinct (map fst (r_topN refB))"
    by code_simp
  have val: "totals (resultValue (mergeLeft partsHeap refC refB refA)) ''p'' ''persistent'' ''string''
      = (2, 5, 2, 0, 2, 5)"
    by code_simp
  from merge_totals [where a = refC and b = refB and c = refA and h = partsHeap
      and rs = "[refA, refB]" and rs' = "[refB, refA]"
      and p = "''p''" and l = "''persistent''" and t = "''string''"] sep perm dist val
  show ?thesis by blast
qed

subsection \<open>C5: the bound of the top-N lists\<close>




subsection \<open>C6: the scenario of the specification\<close>




subsection \<open>C7: failed size estimation\<close>




subsection \<open>C8: the per-key overhead\<close>

text \<open>
  Claim C8 says that every estimate includes the overhead constant, also when the native
  command answers. A positive answer of \<open>MEMORY USAGE\<close> is returned as it is: an answer
  of 7 bytes gives the estimate 7, below the overhead of 50.
\<close>

theorem native_estimate_counterexample:
  "memoryReply nativeRedis (selected nativeRedis) ''k'' = Inr (Some 7)
   \<and> estimateKeySize nativeRedis ''k'' ''string'' = Inr 7
   \<and> \<not> baseOverhead \<le> 7"
  by code_simp

text \<open>
  Claim C8, amended. When the native command returns a positive value, that value is the
  estimate, with nothing added. On every other path the estimate is the result of the
  heuristic, which is the overhead constant added to a type-specific size that is never
  negative, and the overhead constant alone for an unrecognised type.
\<close>

theorem estimate_overhead:
  "(memoryReply client (selected client) k = Inr (Some v) \<and> 0 < v \<longrightarrow>
      estimateKeySize client k t = Inr v)
   \<and> ((\<forall>v. memoryReply client (selected client) k = Inr (Some v) \<longrightarrow> v \<le> 0) \<longrightarrow>
        estimateKeySize client k t = Inr (estimateKeySizeHeuristic client k t))
   \<and> baseOverhead \<le> estimateKeySizeHeuristic client k t
   \<and> estimateKeySizeHeuristic client k ''string'' = estimateStringSize client k + baseOverhead
   \<and> estimateKeySizeHeuristic client k ''hash'' = estimateHashSize client k + baseOverhead
   \<and> estimateKeySizeHeuristic client k ''list'' = estimateListSize client k + baseOverhead
   \<and> estimateKeySizeHeuristic client k ''set'' = estimateSetSize client k + baseOverhead
   \<and> estimateKeySizeHeuristic client k ''zset'' = estimateZSetSize client k + baseOverhead
   \<and> estimateKeySizeHeuristic client k ''stream'' = estimateStreamSize client k + baseOverhead
   \<and> (t \<notin> set [''string'', ''hash'', ''list'', ''set'', ''zset'', ''stream''] \<longrightarrow>
        estimateKeySizeHeuristic client k t = baseOverhead)
   \<and> 0 \<le> estimateStringSize client k \<and> 0 \<le> estimateHashSize client k
   \<and> 0 \<le> estimateListSize client k \<and> 0 \<le> estimateSetSize client k
   \<and> 0 \<le> estimateZSetSize client k \<and> 0 \<le> estimateStreamSize client k"
  using estimateKeySize_native [of client k v t] estimateKeySize_fallback [of client k t]
    heuristic_overhead [of client k t]
    estimateStringSize_nonneg [of client k] estimateHashSize_nonneg [of client k]
    estimateListSize_nonneg [of client k] estimateSetSize_nonneg [of client k]
    estimateZSetSize_nonneg [of client k] estimateStreamSize_nonneg [of client k]
  by (simp add: estimateKeySizeHeuristic_def)

theorem estimate_overhead_witness:
  "memoryReply nativeRedis (selected nativeRedis) ''k'' = Inr (Some 7)
   \<and> estimateKeySize nativeRedis ''k'' ''string'' = Inr 7
   \<and> memoryReply staleRedis (selected staleRedis) ''k'' = Inl ''ERR unknown command''
   \<and> estimateKeySize staleRedis ''k'' ''string''
      = Inr (estimateKeySizeHeuristic staleRedis ''k'' ''string'')
   \<and> baseOverhead \<le> estimateKeySizeHeuristic staleRedis ''k'' ''string''
   \<and> ''module'' \<notin> set [''string'', ''hash'', ''list'', ''set'', ''zset'', ''stream'']
   \<and> estimateKeySizeHeuristic staleRedis ''k'' ''module'' = baseOverhead"
proof -
  have native: "memoryReply nativeRedis (selected nativeRedis) ''k'' = Inr (Some 7)"
    by code_simp
  have failing: "memoryReply staleRedis (selected staleRedis) ''k'' = Inl ''ERR unknown command''"
    by (simp add: staleRedis_def deadRedis_def)
  then have nopos: "\<forall>v. memoryReply staleRedis (selected staleRedis) ''k'' = Inr (Some v) \<longrightarrow> v \<le> 0"
    by simp
  have other: "''module'' \<notin> set [''string'', ''hash'', ''list'', ''set'', ''zset'', ''stream'']"
    by simp
  from estimate_overhead [where client = nativeRedis and k = "''k''" and v = 7 and t = "''string''"]
    native
  have "estimateKeySize nativeRedis ''k'' ''string'' = Inr 7" by simp
  moreover from estimate_overhead [where client = staleRedis and k = "''k''" and t = "''string''"]
    nopos
  have "estimateKeySize staleRedis ''k'' ''string''
      = Inr (estimateKeySizeHeuristic staleRedis ''k'' ''string'')
      \<and> baseOverhead \<le> estimateKeySizeHeuristic staleRedis ''k'' ''string''" by blast
  moreover from estimate_overhead [where client = staleRedis and k = "''k''" and t = "''module''"]
    other
  have "estimateKeySizeHeuristic staleRedis ''k'' ''module'' = baseOverhead" by blast
  ultimately show ?thesis using native failing other by blast
qed

subsection \<open>C9: coverage\<close>

text \<open>
  Claim C9 says that \<open>coverage\<close> is clamped to the interval from 0 to 1. The scanners
  divide and do not clamp: on a store whose \<open>INFO\<close> reports one key while the scan samples
  two, \<open>coverage\<close> is 2; and with the sample limit -1 on that store \<open>coverage\<close> is -1. (The
  quotient is modelled exactly; the source rounds it to a double, which leaves 2 / 1 and
  -1 / 1 as they are.)
\<close>

theorem coverage_counterexample:
  "map_option (approxTotalKeys \<circ> stats) (scanStandalone 1 staleRedis limit2Config) = Some 1
   \<and> map_option (sampled \<circ> stats) (scanStandalone 1 staleRedis limit2Config) = Some 2
   \<and> map_option (coverage \<circ> stats) (scanStandalone 1 staleRedis limit2Config) = Some 2
   \<and> map_option (coverage \<circ> stats) (scanCluster 1 [staleRedis] negativeConfig) = Some (- 1)"
  by code_simp

text \<open>
  Claim C9, amended. For every scan result, \<open>coverage\<close> is \<open>sampled\<close> divided by
  \<open>approxTotalKeys\<close> when \<open>approxTotalKeys\<close> is positive and 0 otherwise, with no clamping.
  It is at most 1 when \<open>sampled\<close> does not exceed \<open>approxTotalKeys\<close>, and above 1 when
  \<open>approxTotalKeys\<close> is positive and smaller than \<open>sampled\<close>. It is not negative when the
  sample limit is not negative, and negative when the sample limit is negative and
  \<open>approxTotalKeys\<close> is positive.
\<close>

theorem scan_coverage:
  "(scanStandalone fuel client config = Some r \<or> scanCluster fuel nodes config = Some r) \<longrightarrow>
     coverage (stats r) =
       (if approxTotalKeys (stats r) > 0
        then sampled (stats r) / of_nat (approxTotalKeys (stats r)) else 0)
     \<and> (0 \<le> sampleLimit config \<longrightarrow> 0 \<le> coverage (stats r))
     \<and> (sampled (stats r) \<le> of_nat (approxTotalKeys (stats r)) \<longrightarrow> coverage (stats r) \<le> 1)
     \<and> (0 < approxTotalKeys (stats r) \<and> of_nat (approxTotalKeys (stats r)) < sampled (stats r)
          \<longrightarrow> 1 < coverage (stats r))
     \<and> (0 < approxTotalKeys (stats r) \<and> sampleLimit config < 0 \<longrightarrow> coverage (stats r) < 0)"
proof
  assume "scanStandalone fuel client config = Some r \<or> scanCluster fuel nodes config = Some r"
  then obtain t st where "r = scanResult config t st"
    by (auto simp: scanStandalone_def scanCluster_def)
  then show "coverage (stats r) =
       (if approxTotalKeys (stats r) > 0
        then sampled (stats r) / of_nat (approxTotalKeys (stats r)) else 0)
     \<and> (0 \<le> sampleLimit config \<longrightarrow> 0 \<le> coverage (stats r))
     \<and> (sampled (stats r) \<le> of_nat (approxTotalKeys (stats r)) \<longrightarrow> coverage (stats r) \<le> 1)
     \<and> (0 < approxTotalKeys (stats r) \<and> of_nat (approxTotalKeys (stats r)) < sampled (stats r)
          \<longrightarrow> 1 < coverage (stats r))
     \<and> (0 < approxTotalKeys (stats r) \<and> sampleLimit config < 0 \<longrightarrow> coverage (stats r) < 0)"
    by (rule scanResult_coverage)
qed

theorem scan_coverage_witness:
  "map_option (sampled \<circ> stats) (scanStandalone 1 exactRedis limit2Config) = Some 2
   \<and> map_option (approxTotalKeys \<circ> stats) (scanStandalone 1 exactRedis limit2Config) = Some 3
   \<and> map_option (sampled \<circ> stats) (scanStandalone 1 staleRedis limit2Config) = Some 2
   \<and> map_option (approxTotalKeys \<circ> stats) (scanStandalone 1 staleRedis limit2Config) = Some 1
   \<and> map_option (approxTotalKeys \<circ> stats) (scanCluster 1 [staleRedis] negativeConfig) = Some 1
   \<and> 0 \<le> sampleLimit limit2Config \<and> sampleLimit negativeConfig < 0
   \<and> (\<exists>r r' r''. scanStandalone 1 exactRedis limit2Config = Some r
         \<and> scanStandalone 1 staleRedis limit2Config = Some r'
         \<and> scanCluster 1 [staleRedis] negativeConfig = Some r''
         \<and> 0 \<le> coverage (stats r) \<and> coverage (stats r) \<le> 1 \<and> 1 < coverage (stats r')
         \<and> coverage (stats r'') < 0)"
proof -
  have e: "map_option (sampled \<circ> stats) (scanStandalone 1 exactRedis limit2Config) = Some 2
      \<and> map_option (approxTotalKeys \<circ> stats) (scanStandalone 1 exactRedis limit2Config) = Some 3"
    by code_simp
  have s: "map_option (sampled \<circ> stats) (scanStandalone 1 staleRedis limit2Config) = Some 2
      \<and> map_option (approxTotalKeys \<circ> stats) (scanStandalone 1 staleRedis limit2Config) = Some 1"
    by code_simp
  have n: "map_option (approxTotalKeys \<circ> stats) (scanCluster 1 [staleRedis] negativeConfig) = Some 1"
    by code_simp
  have l2: "0 \<le> sampleLimit limit2Config" by (simp add: limit2Config_def)
  have ln: "sampleLimit negativeConfig < 0" by (simp add: negativeConfig_def)
  from e obtain r where r: "scanStandalone 1 exactRedis limit2Config = Some r"
    and re: "sampled (stats r) = 2" "approxTotalKeys (stats r) = 3" by auto
  from s obtain r' where r': "scanStandalone 1 staleRedis limit2Config = Some r'"
    and rs: "sampled (stats r') = 2" "approxTotalKeys (stats r') = 1" by auto
  from n obtain r'' where r'': "scanCluster 1 [staleRedis] negativeConfig = Some r''"
    and rn: "approxTotalKeys (stats r'') = 1" by auto
  from scan_coverage [where fuel = 1 and client = exactRedis and config = limit2Config
      and r = r and nodes = "[]"] r re l2
  have "0 \<le> coverage (stats r) \<and> coverage (stats r) \<le> 1" by simp
  moreover from scan_coverage [where fuel = 1 and client = staleRedis and config = limit2Config
      and r = r' and nodes = "[]"] r' rs
  have "1 < coverage (stats r')" by simp
  moreover from scan_coverage [where fuel = 1 and client = deadRedis and config = negativeConfig
      and r = r'' and nodes = "[staleRedis]"] r'' rn ln
  have "coverage (stats r'') < 0" by simp
  ultimately show ?thesis using e s n l2 ln r r' r'' by blast
qed

subsection \<open>C10: an estimate of zero\<close>

text \<open>
  Claim C10. \<open>aggregateKeys\<close> and \<open>updatePrefixAgg\<close> test \<open>key.estBytes\<close> for truthiness, so
  a key whose estimate is exactly 0 is handled as a key without estimate: the aggregation
  of a key list is the aggregation of the list with every zero estimate removed, and such
  a key adds nothing to the byte sum of a prefix or of a type and is not inserted into a
  top-N list.
\<close>

theorem zero_estimate_is_absent:
  "aggregateKeys (map zeroAsAbsent ks) config delimiter = aggregateKeys ks config delimiter
   \<and> (estBytes k = Some 0 \<longrightarrow>
        pa_estBytes (updatePrefixAgg a k config) = pa_estBytes a
        \<and> typeBytes (byType (updatePrefixAgg a k config)) = typeBytes (byType a)
        \<and> aggTopN tm k config = (if dget tm (ktype k) = None then dset (ktype k) [] tm else tm))"
proof -
  have "estBytes k = Some 0 \<Longrightarrow> \<not> truthy (estBytes k)" by (simp add: truthy_def)
  then show ?thesis
    by (simp add: aggregateKeys_def aggLoop_zeroAsAbsent estBytes_update typeBytes_update
        aggTopN_not_truthy)
qed

theorem zero_estimate_is_absent_witness:
  "estBytes (stringKey ''z'' (Some 0)) = Some 0
   \<and> aggregateKeys [stringKey ''z'' (Some 0)] scenarioConfig '':''
      = aggregateKeys [stringKey ''z'' None] scenarioConfig '':''
   \<and> pa_estBytes (updatePrefixAgg (createEmptyPrefixAgg ''z'') (stringKey ''z'' (Some 0)) scenarioConfig)
      = pa_estBytes (createEmptyPrefixAgg ''z'')
   \<and> aggTopN [] (stringKey ''z'' (Some 0)) scenarioConfig = [(''string'', [])]"
proof -
  have zero: "estBytes (stringKey ''z'' (Some 0)) = Some 0" by (simp add: stringKey_def)
  have absent: "map zeroAsAbsent [stringKey ''z'' (Some 0)] = [stringKey ''z'' None]"
    by (simp add: zeroAsAbsent_def stringKey_def)
  have empty: "(if dget [] (ktype (stringKey ''z'' (Some 0))) = None
                then dset (ktype (stringKey ''z'' (Some 0))) [] [] else [])
      = [(''string'', [] :: KeyMeta list)]"
    by (simp add: stringKey_def)
  from zero_estimate_is_absent [where ks = "[stringKey ''z'' (Some 0)]" and config = scenarioConfig
      and delimiter = "'':''" and k = "stringKey ''z'' (Some 0)"
      and a = "createEmptyPrefixAgg ''z''" and tm = "[]"] zero absent empty
  show ?thesis by simp
qed

end
